theory Spec2Isabelle
  imports Main
begin

section \<open>Connected components by iterated relabelling (mismo.cluster)\<close>

text \<open>
  The development embeds \<^verbatim>\<open>src/mismo/cluster/_connected_components.py\<close>.
  A table is the list of its rows. The integer-coded edge table has the columns
  \<^verbatim>\<open>(record_id_l, record_id_r)\<close>; a label table has the columns
  \<^verbatim>\<open>(record_id, component)\<close>. Codes and labels are natural numbers: the unsigned
  64-bit values of the source are bounded by the number of rows and never wrap. The
  \<^verbatim>\<open>component\<close> column is nullable, because the left join of
  \<^verbatim>\<open>_updated_labels\<close> yields NULL for a row without a match: \<open>None\<close> is NULL.
  Python names that start with an underscore lose it here.
\<close>

type_synonym edge_table = "(nat \<times> nat) list"
type_synonym label_table = "(nat \<times> nat option) list"
type_synonym equiv_table = "(nat option \<times> nat option) list"

datatype error = ValueError | RelationError | AssertionError | TypeError

subsection \<open>Relational primitives\<close>

text \<open>
  \<^verbatim>\<open>ibis.least\<close>: the least of its arguments, NULL arguments being skipped (the
  behaviour of the default engine); it is NULL only when both are.
\<close>

fun least :: "nat option \<Rightarrow> nat option \<Rightarrow> nat option" where
  "least None y = y"
| "least (Some a) None = Some a"
| "least (Some a) (Some b) = Some (min a b)"

text \<open>The aggregates \<^verbatim>\<open>min()\<close> and \<^verbatim>\<open>max()\<close> skip NULLs and are NULL on no value.\<close>

definition agg_min :: "nat option list \<Rightarrow> nat option" where
  "agg_min cs = (case [c. Some c \<leftarrow> cs] of [] \<Rightarrow> None | x # xs \<Rightarrow> Some (Min (set (x # xs))))"

definition agg_max :: "nat option list \<Rightarrow> nat option" where
  "agg_max cs = (case [c. Some c \<leftarrow> cs] of [] \<Rightarrow> None | x # xs \<Rightarrow> Some (Max (set (x # xs))))"

subsection \<open>The propagation round\<close>

text \<open>\<^verbatim>\<open>_get_initial_labels\<close>: every endpoint labelled with itself, duplicates removed.\<close>

definition get_initial_labels :: "edge_table \<Rightarrow> label_table" where
  "get_initial_labels edges =
     (let labels_left = map (\<lambda>(l, r). (l, Some l)) edges;
          labels_right = map (\<lambda>(l, r). (r, Some r)) edges
      in remdups (labels_left @ labels_right))"

text \<open>
  \<^verbatim>\<open>_get_component_equivalences\<close>: two inner joins replace each endpoint of an edge
  by its current component; the distinct pairs \<^verbatim>\<open>(component_l, component_r)\<close> remain.
\<close>

definition get_component_equivalences :: "edge_table \<Rightarrow> label_table \<Rightarrow> equiv_table" where
  "get_component_equivalences edges node_labels =
     (let same_l = [(component_l, r). (l, r) \<leftarrow> edges, (record_id, component_l) \<leftarrow> node_labels,
                      l = record_id];
          same_lr = [(component_l, component_r). (component_l, r) \<leftarrow> same_l,
                      (record_id, component_r) \<leftarrow> node_labels, r = record_id]
      in remdups same_lr)"

text \<open>
  \<^verbatim>\<open>_get_component_update_map\<close>: rows \<^verbatim>\<open>(component_old, component)\<close>. The
  intermediate tables \<open>ml\<close> and \<open>mr\<close> have the columns \<^verbatim>\<open>(component, component_old)\<close>
  as selected in the source. Grouping puts NULL keys into one group.
\<close>

definition get_component_update_map :: "equiv_table \<Rightarrow> equiv_table" where
  "get_component_update_map component_equivalences =
     (let ml = map (\<lambda>(component_l, component_r). (least component_l component_r, component_l))
                 component_equivalences;
          mr = map (\<lambda>(component_l, component_r). (least component_l component_r, component_r))
                 component_equivalences;
          together = remdups (ml @ mr)
      in map (\<lambda>component_old.
                (component_old, agg_min [c. (c, old) \<leftarrow> together, old = component_old]))
           (remdups (map snd together)))"

text \<open>
  \<^verbatim>\<open>_updated_labels\<close>: the left join on \<^verbatim>\<open>component_old\<close>. A NULL key matches
  nothing; a row without a match is kept with a NULL component.
\<close>

definition updated_labels :: "label_table \<Rightarrow> edge_table \<Rightarrow> label_table" where
  "updated_labels node_labels edges =
     (let component_equivalences = get_component_equivalences edges node_labels;
          component_mapping = get_component_update_map component_equivalences
      in concat (map (\<lambda>(record_id, component_old).
           (case [component. (old, component) \<leftarrow> component_mapping,
                    component_old \<noteq> None \<and> old = component_old] of
              [] \<Rightarrow> [(record_id, None)]
            | ms \<Rightarrow> map (\<lambda>component. (record_id, component)) ms)) node_labels))"

text \<open>
  \<^verbatim>\<open>_n_updates\<close>: the number of rows of the join of the two labelings on equal
  \<^verbatim>\<open>record_id\<close> and different \<^verbatim>\<open>component\<close>; a comparison with NULL is not true.

  Modelled from the spec: the helper \<^verbatim>\<open>_util.join\<close> that \<^verbatim>\<open>_n_updates\<close> calls is not
  among the sources. The specification's convergence checker "returns the count of nodes
  whose label differs", so the helper is taken to be the inner join on the given condition.
\<close>

definition n_updates :: "label_table \<Rightarrow> label_table \<Rightarrow> nat" where
  "n_updates labels new_labels =
     length [(). (record_id, c) \<leftarrow> labels, (record_id', c') \<leftarrow> new_labels,
               record_id = record_id' \<and> c \<noteq> None \<and> c' \<noteq> None \<and> c \<noteq> c']"

subsection \<open>The loop of \<^verbatim>\<open>_connected_components_ints\<close>\<close>

text \<open>
  One pass through the loop body, given the round number \<open>i\<close>, the current labels and
  the freshly computed ones: the assertion on the row counts, the convergence test, the
  round limit. The log line of a round has no effect on the result and is left out; the
  caching of a table does not change its rows.
\<close>

datatype round_result = Raise error | Return label_table | Continue label_table

definition round_body :: "int option \<Rightarrow> int \<Rightarrow> label_table \<Rightarrow> label_table \<Rightarrow> round_result" where
  "round_body max_iter i labels new_labels =
     (if length labels \<noteq> length new_labels then Raise AssertionError
      else if n_updates labels new_labels = 0 then Return labels
      else if (case max_iter of None \<Rightarrow> False | Some m \<Rightarrow> i \<ge> m) then Return new_labels
      else Continue new_labels)"

text \<open>
  The loop \<^verbatim>\<open>for i in count(1)\<close> has no bound of its own, so the model returns an
  option: \<open>None\<close> stands for a run that never leaves the loop.
\<close>

partial_function (option) cc_loop ::
    "edge_table \<Rightarrow> int option \<Rightarrow> int \<Rightarrow> label_table \<Rightarrow> (error + label_table) option" where
  "cc_loop edges max_iter i labels =
     (case round_body max_iter i labels (updated_labels labels edges) of
        Raise e \<Rightarrow> Some (Inl e)
      | Return result \<Rightarrow> Some (Inr result)
      | Continue new_labels \<Rightarrow> cc_loop edges max_iter (i + 1) new_labels)"

declare cc_loop.simps [code]

definition connected_components_ints ::
    "edge_table \<Rightarrow> int option \<Rightarrow> (error + label_table) option" where
  "connected_components_ints edges max_iter = cc_loop edges max_iter 1 (get_initial_labels edges)"


subsection \<open>The raw edge table and the factorizer\<close>

text \<open>
  The table handed to \<^verbatim>\<open>connected_components\<close>: its schema (column names with the
  name of their datatype) and, per row, the values of the two endpoint columns
  \<^verbatim>\<open>record_id_l\<close> and \<^verbatim>\<open>record_id_r\<close>. The values are only read once both
  columns are known to exist. Identifiers are values of an arbitrary type \<open>'a\<close>.
\<close>

record 'a raw_edges =
  schema :: "(string \<times> string) list"
  rows :: "('a \<times> 'a) list"

text \<open>
  \<^verbatim>\<open>raw_edges.rename(record_id_r="record_id_l", record_id_l="record_id_r")\<close>: the two
  endpoint columns exchange their names; each keeps its datatype and its values.
\<close>

definition swap_name :: "string \<Rightarrow> string" where
  "swap_name n = (if n = ''record_id_l'' then ''record_id_r''
                  else if n = ''record_id_r'' then ''record_id_l'' else n)"

definition rename_swapped :: "'a raw_edges \<Rightarrow> 'a raw_edges" where
  "rename_swapped t =
     \<lparr>schema = map (\<lambda>(n, ty). (swap_name n, ty)) (schema t),
      rows = map (\<lambda>(l, r). (r, l)) (rows t)\<rparr>"

text \<open>
  \<^verbatim>\<open>Table.union\<close> of the relational library: both operands must have the same schema,
  compared as a dictionary from column name to datatype, else the library raises; rows are
  matched by column name and duplicates are kept (\<^verbatim>\<open>distinct=False\<close> is the default).
\<close>

definition ibis_union :: "'a raw_edges \<Rightarrow> 'a raw_edges \<Rightarrow> error + 'a raw_edges" where
  "ibis_union a b =
     (if set (schema a) \<noteq> set (schema b) then Inl RelationError
      else Inr \<lparr>schema = schema a, rows = rows a @ rows b\<rparr>)"

text \<open>
  The class \<^verbatim>\<open>Factorizer\<close> of \<^verbatim>\<open>mismo._factorizer\<close> is not among the sources. A
  factorizer is taken as a pair of functions, from identifiers to codes and from codes
  back to identifiers (a code that was never handed out has none), and the constructor
  is a parameter \<open>mk\<close> of everything that uses it. What the specification asks of it is
  \<open>factorizer_ok\<close>: decoding the code of an identifier that was present gives the
  identifier back, so distinct identifiers have distinct codes.
\<close>

record 'a factorizer =
  encode :: "'a \<Rightarrow> nat"
  decode :: "nat \<Rightarrow> 'a option"

definition factorizer_ok :: "'a factorizer \<Rightarrow> 'a list \<Rightarrow> bool" where
  "factorizer_ok f ids \<longleftrightarrow> list_all (\<lambda>x. decode f (encode f x) = Some x) ids"

text \<open>
  Modelled from the spec: \<^verbatim>\<open>Factorizer\<close> (\<^verbatim>\<open>mismo/_factorizer.py\<close>, missing from
  the sources) "assigns each distinct identifier a dense code in [0, N)", with a
  deterministic tie-break such as the order of occurrence. The code of an identifier is
  its position in the list of distinct identifiers, and only the positions of that list
  decode.
\<close>

definition Factorizer :: "'a list \<Rightarrow> 'a factorizer" where
  "Factorizer ids =
     (let uniques = remdups ids
      in \<lparr>encode = (\<lambda>x. length (takeWhile (\<lambda>y. y \<noteq> x) uniques)),
          decode = (\<lambda>c. if c < length uniques then Some (uniques ! c) else None)\<rparr>)"

text \<open>\<^verbatim>\<open>raw_edges.union(swapped).select("record_id_l")\<close>, once the union is allowed.\<close>

definition all_node_ids :: "'a raw_edges \<Rightarrow> 'a list" where
  "all_node_ids raw = map fst (rows raw @ rows (rename_swapped raw))"

text \<open>
  \<^verbatim>\<open>_intify_edges\<close>: the check on the column names, the union with the swapped table
  (where the library compares the schemas), the encoding of both endpoint columns, and
  the function \<^verbatim>\<open>restore\<close> that decodes the \<^verbatim>\<open>record_id\<close> column of a labeling: the
  specification's decoding "joins codes back to original identifiers", so a row whose
  code has no identifier has no row in the result.
\<close>

definition intify_edges ::
    "('a list \<Rightarrow> 'a factorizer) \<Rightarrow> 'a raw_edges
       \<Rightarrow> error + (edge_table \<times> (label_table \<Rightarrow> ('a \<times> nat option) list))" where
  "intify_edges mk raw =
     (if ''record_id_l'' \<notin> set (map fst (schema raw)) \<or>
         ''record_id_r'' \<notin> set (map fst (schema raw))
      then Inl ValueError
      else case ibis_union raw (rename_swapped raw) of
             Inl e \<Rightarrow> Inl e
           | Inr u \<Rightarrow>
               (let f = mk (map fst (rows u));
                    edges = map (\<lambda>(l, r). (encode f l, encode f r)) (rows raw)
                in Inr (edges,
                        \<lambda>int_labels. [(x, component). (record_id, component) \<leftarrow> int_labels,
                                        Some x \<leftarrow> [decode f record_id]])))"

subsection \<open>Labels for nodes that are in no edge\<close>

text \<open>
  \<^verbatim>\<open>_get_additional_labels\<close>: the rows of \<open>nodes\<close> whose identifier has no label, numbered
  from 0 by \<^verbatim>\<open>ibis.row_number()\<close>, get the label \<^verbatim>\<open>row_number + (1 + max_existing_label)\<close>.
  The maximum is executed first; over no label it is NULL, which comes back as Python's
  \<^verbatim>\<open>None\<close>, and \<^verbatim>\<open>1 + None\<close> raises.
\<close>

definition get_additional_labels ::
    "('a \<times> nat option) list \<Rightarrow> 'a list \<Rightarrow> error + ('a \<times> nat option) list" where
  "get_additional_labels labels nodes =
     (let is_missing_label = (\<lambda>record_id. record_id \<notin> set (map fst labels));
          max_existing_label = agg_max (map snd labels)
      in case max_existing_label of
           None \<Rightarrow> Inl TypeError
         | Some m \<Rightarrow>
             Inr (map (\<lambda>(row_number, record_id). (record_id, Some (row_number + (1 + m))))
                    (enumerate 0 (filter is_missing_label nodes))))"

text \<open>\<^verbatim>\<open>_add_labels_for_missing_nodes\<close>: \<^verbatim>\<open>labels.union(additional_labels)\<close> keeps all rows.\<close>

definition add_labels_for_missing_nodes ::
    "('a \<times> nat option) list \<Rightarrow> 'a list \<Rightarrow> error + ('a \<times> nat option) list" where
  "add_labels_for_missing_nodes labels nodes =
     (case get_additional_labels labels nodes of
        Inl e \<Rightarrow> Inl e
      | Inr additional_labels \<Rightarrow> Inr (labels @ additional_labels))"

subsection \<open>\<^verbatim>\<open>connected_components\<close>\<close>

text \<open>
  The argument \<open>nodes\<close> is the \<^verbatim>\<open>record_id\<close> column of the table of nodes, or \<open>None\<close>.
\<close>

definition connected_components ::
    "('a list \<Rightarrow> 'a factorizer) \<Rightarrow> 'a raw_edges \<Rightarrow> 'a list option \<Rightarrow> int option
       \<Rightarrow> (error + ('a \<times> nat option) list) option" where
  "connected_components mk edges nodes max_iter =
     (case intify_edges mk edges of
        Inl e \<Rightarrow> Some (Inl e)
      | Inr (int_edges, restore) \<Rightarrow>
          (case connected_components_ints int_edges max_iter of
             None \<Rightarrow> None
           | Some (Inl e) \<Rightarrow> Some (Inl e)
           | Some (Inr int_labels) \<Rightarrow>
               (let result = restore int_labels
                in case nodes of
                     None \<Rightarrow> Some (Inr result)
                   | Some ns \<Rightarrow> Some (add_labels_for_missing_nodes result ns))))"

section \<open>Notions of the specification\<close>

text \<open>The nodes of an edge list, and connection by a path of edges read in either direction.\<close>

definition nodes_of :: "('a \<times> 'a) list \<Rightarrow> 'a set" where
  "nodes_of edges = fst ` set edges \<union> snd ` set edges"

definition connected :: "('a \<times> 'a) list \<Rightarrow> 'a \<Rightarrow> 'a \<Rightarrow> bool" where
  "connected edges x y \<longleftrightarrow> (x, y) \<in> (set edges \<union> (set edges)\<inverse>)\<^sup>*"

text \<open>The labeling after \<open>j\<close> rounds of the loop, started from \<open>L\<close>.\<close>

primrec rounds :: "edge_table \<Rightarrow> nat \<Rightarrow> label_table \<Rightarrow> label_table" where
  "rounds E 0 L = L"
| "rounds E (Suc j) L = rounds E j (updated_labels L E)"

text \<open>The path graph \<open>0 - 1 - \<dots> - k\<close> with its nodes coded in path order.\<close>

definition chain_edges :: "nat \<Rightarrow> edge_table" where
  "chain_edges k = map (\<lambda>j. (j, Suc j)) [0..<k]"

text \<open>The partition that a result induces: two identifiers are related when a label is shared.\<close>

definition same_component :: "('a \<times> nat option) list \<Rightarrow> ('a \<times> 'a) set" where
  "same_component result = {(x, y). \<exists>c. (x, c) \<in> set result \<and> (y, c) \<in> set result}"

definition partition_of ::
    "(error + ('a \<times> nat option) list) option \<Rightarrow> (error + ('a \<times> 'a) set) option" where
  "partition_of run = map_option (map_sum id same_component) run"

text \<open>
  Both endpoint columns exist and have one datatype; a usable schema has, in addition,
  no column name twice.
\<close>

definition endpoints_ok :: "'a raw_edges \<Rightarrow> bool" where
  "endpoints_ok raw \<longleftrightarrow>
     (\<exists>ty \<in> snd ` set (schema raw).
        (''record_id_l'', ty) \<in> set (schema raw) \<and> (''record_id_r'', ty) \<in> set (schema raw))"

definition schema_ok :: "'a raw_edges \<Rightarrow> bool" where
  "schema_ok raw \<longleftrightarrow> distinct (map fst (schema raw)) \<and> endpoints_ok raw"

text \<open>
  The partition expected of a run to convergence: the nodes of the edge list grouped by
  connection, and every further node of the universe, \<open>X\<close>, alone.
\<close>

definition component_relation :: "('a \<times> 'a) list \<Rightarrow> 'a set \<Rightarrow> ('a \<times> 'a) set" where
  "component_relation edges X =
     {(x, y). x \<in> nodes_of edges \<and> y \<in> nodes_of edges \<and> connected edges x y} \<union>
     {(x, y). x = y \<and> x \<in> X}"

section \<open>The invariant of the loop\<close>

text \<open>
  Every node of the edge list has exactly one row; its label is not NULL, is at most the
  node's own code, and is the code of a node connected to it.
\<close>

definition labels_inv :: "edge_table \<Rightarrow> label_table \<Rightarrow> bool" where
  "labels_inv edges L \<longleftrightarrow>
     distinct (map fst L) \<and> fst ` set L = nodes_of edges \<and>
     (\<forall>(n, c) \<in> set L. \<exists>k. c = Some k \<and> k \<le> n \<and> connected edges k n)"

definition all_labelled :: "label_table \<Rightarrow> bool" where
  "all_labelled L \<longleftrightarrow> (\<forall>(n, c) \<in> set L. c \<noteq> None)"

text \<open>The representatives offered to the old label \<open>k\<close>, and the label that replaces it.\<close>

definition cand :: "edge_table \<Rightarrow> label_table \<Rightarrow> nat \<Rightarrow> nat set" where
  "cand edges L k = {min a b | a b l r.
      (l, r) \<in> set edges \<and> (l, Some a) \<in> set L \<and> (r, Some b) \<in> set L \<and> (a = k \<or> b = k)}"

definition new_label :: "edge_table \<Rightarrow> label_table \<Rightarrow> nat option \<Rightarrow> nat option" where
  "new_label E L c = Some (Min (cand E L (the c)))"

text \<open>The labels that occur in a labeling.\<close>

definition labels_in_use :: "label_table \<Rightarrow> nat set" where
  "labels_in_use L = {k. \<exists>n. (n, Some k) \<in> set L}"

definition label_sum :: "label_table \<Rightarrow> nat" where
  "label_sum L = sum_list (map (\<lambda>(n, c). case c of None \<Rightarrow> 0 | Some k \<Rightarrow> k) L)"

section \<open>Graphs\<close>

lemma connected_refl: "connected E x x"
  by (simp add: connected_def)

lemma connected_sym: "connected E x y \<Longrightarrow> connected E y x"
  unfolding connected_def
  by (metis converse_Un converse_converse rtrancl_converseD sup_commute)

lemma connected_trans: "connected E x y \<Longrightarrow> connected E y z \<Longrightarrow> connected E x z"
  unfolding connected_def by (rule rtrancl_trans)

lemma connected_edge: "(l, r) \<in> set E \<Longrightarrow> connected E l r"
  unfolding connected_def by blast

section \<open>One round of relabelling\<close>

text \<open>
  Under the invariant a round is a row-by-row replacement of labels: the label \<open>k\<close> of a
  row becomes the least element of \<open>cand E L k\<close>. The lemmas below establish this, and
  with it that the invariant is kept.
\<close>

lemma init_inv: "labels_inv E (get_initial_labels E)"
proof -
  let ?xs = "map (\<lambda>(l, r). (l, Some l)) E @ map (\<lambda>(l, r). (r, Some r)) E"
  have rows: "\<forall>p \<in> set ?xs. snd p = Some (fst p)" by auto
  have "inj_on fst (set (remdups ?xs))"
    using rows by (auto simp: inj_on_def prod_eq_iff simp del: set_append map_append)
  then have d: "distinct (map fst (remdups ?xs))"
    by (simp add: distinct_map)
  have s: "fst ` set ?xs = nodes_of E"
    by (force simp: nodes_of_def image_Un image_image split_def)
  show ?thesis
    unfolding labels_inv_def get_initial_labels_def Let_def
    using d s rows by (auto simp: connected_refl simp del: set_append map_append)
qed

lemma agg_min_set:
  "agg_min cs = (if {c. Some c \<in> set cs} = {} then None else Some (Min {c. Some c \<in> set cs}))"
proof -
  define vs where "vs = [c. Some c \<leftarrow> cs]"
  have s: "set vs = {c. Some c \<in> set cs}"
    unfolding vs_def by (induction cs) (auto split: option.splits)
  have a: "agg_min cs = (case vs of [] \<Rightarrow> None | x # xs \<Rightarrow> Some (Min (set (x # xs))))"
    unfolding vs_def agg_min_def ..
  show ?thesis
  proof (cases vs)
    case Nil
    with s a show ?thesis by simp
  next
    case (Cons x xs)
    with s have "{c. Some c \<in> set cs} = set (x # xs)" by simp
    with Cons a show ?thesis by (simp del: set_simps)
  qed
qed

lemma lookup_distinct_keys:
  "distinct ks \<Longrightarrow> [c. (old, c) \<leftarrow> map (\<lambda>k. (k, g k)) ks, P \<and> old = key]
      = (if P \<and> key \<in> set ks then [g key] else [])"
  by (induction ks) auto

lemma set_equivalences:
  "set (get_component_equivalences E L) =
     {(a, b). \<exists>l r. (l, r) \<in> set E \<and> (l, a) \<in> set L \<and> (r, b) \<in> set L}"
  unfolding get_component_equivalences_def Let_def by force

lemma set_update_map_keys:
  "fst ` set (get_component_update_map eqs) = fst ` set eqs \<union> snd ` set eqs"
  unfolding get_component_update_map_def Let_def by (force simp: image_Un image_image split_def)

lemma update_map_lookup:
  "[c. (old, c) \<leftarrow> get_component_update_map eqs, P \<and> old = key] =
     (if P \<and> key \<in> fst ` set eqs \<union> snd ` set eqs
      then [agg_min [c. (c, old) \<leftarrow> remdups (map (\<lambda>(a, b). (least a b, a)) eqs @ map (\<lambda>(a, b). (least a b, b)) eqs), old = key]]
      else [])"
proof -
  let ?tog = "remdups (map (\<lambda>(a, b). (least a b, a)) eqs @ map (\<lambda>(a, b). (least a b, b)) eqs)"
  have k: "set (remdups (map snd ?tog)) = fst ` set eqs \<union> snd ` set eqs"
    by (force simp: image_Un image_image split_def)
  have "get_component_update_map eqs =
      map (\<lambda>k. (k, agg_min [c. (c, old) \<leftarrow> ?tog, old = k])) (remdups (map snd ?tog))"
    unfolding get_component_update_map_def Let_def ..
  then show ?thesis
    using lookup_distinct_keys [where ks = "remdups (map snd ?tog)" and g = "\<lambda>k. agg_min [c. (c, old) \<leftarrow> ?tog, old = k]" and P = P and key = key] k
    by (simp only: distinct_remdups)
qed

lemma least_Some [simp]: "least (Some a) (Some b) = Some (min a b)"
  by simp

lemma candidates_set:
  assumes "all_labelled L"
  shows "{c. Some c \<in> set [c. (c, old) \<leftarrow> remdups (map (\<lambda>(a, b). (least a b, a)) (get_component_equivalences E L)
            @ map (\<lambda>(a, b). (least a b, b)) (get_component_equivalences E L)), old = Some k]} = cand E L k"
proof -
  have nn: "\<And>n c. (n, c) \<in> set L \<Longrightarrow> \<exists>k. c = Some k"
    using assms unfolding all_labelled_def by auto
  show ?thesis
  proof (rule set_eqI, rule iffI)
    fix c
    assume "c \<in> {c. Some c \<in> set [c. (c, old) \<leftarrow> remdups (map (\<lambda>(a, b). (least a b, a)) (get_component_equivalences E L)
            @ map (\<lambda>(a, b). (least a b, b)) (get_component_equivalences E L)), old = Some k]}"
    then obtain a b where ab: "(a, b) \<in> set (get_component_equivalences E L)"
        and c: "Some c = least a b" and k: "a = Some k \<or> b = Some k"
      by auto
    from ab obtain l r where lr: "(l, r) \<in> set E" "(l, a) \<in> set L" "(r, b) \<in> set L"
      unfolding set_equivalences by auto
    from nn lr obtain a' b' where "a = Some a'" "b = Some b'" by blast
    with ab c k lr show "c \<in> cand E L k"
      unfolding cand_def by auto
  next
    fix c
    assume "c \<in> cand E L k"
    then obtain a b l r where *: "c = min a b" "(l, r) \<in> set E" "(l, Some a) \<in> set L"
        "(r, Some b) \<in> set L" "a = k \<or> b = k"
      unfolding cand_def by auto
    then have "(Some a, Some b) \<in> set (get_component_equivalences E L)"
      unfolding set_equivalences by auto
    with * show "c \<in> {c. Some c \<in> set [c. (c, old) \<leftarrow> remdups (map (\<lambda>(a, b). (least a b, a)) (get_component_equivalences E L)
            @ map (\<lambda>(a, b). (least a b, b)) (get_component_equivalences E L)), old = Some k]}"
      by force
  qed
qed

lemma cand_finite: "finite (cand E L k)"
proof -
  have "cand E L k \<subseteq> (\<lambda>(a, b). min a b) ` ((the ` snd ` set L) \<times> (the ` snd ` set L))"
    unfolding cand_def by force
  then show ?thesis by (rule finite_subset) simp
qed

lemma cand_le: "c \<in> cand E L k \<Longrightarrow> c \<le> k"
  unfolding cand_def by auto

lemma cand_nonempty:
  assumes "fst ` set L = nodes_of E" "all_labelled L" "(n, Some k) \<in> set L"
  shows "cand E L k \<noteq> {}"
proof -
  have lab: "\<exists>a. (m, Some a) \<in> set L" if "m \<in> nodes_of E" for m
  proof -
    from that assms(1) obtain a where "(m, a) \<in> set L" by force
    with assms(2) show ?thesis unfolding all_labelled_def by fastforce
  qed
  from assms have "n \<in> nodes_of E" by force
  then obtain l r where lr: "(l, r) \<in> set E" "n = l \<or> n = r"
    unfolding nodes_of_def by force
  from lr(2) show ?thesis
  proof
    assume "n = l"
    from lr(1) have "r \<in> nodes_of E" unfolding nodes_of_def by force
    with lab obtain b where "(r, Some b) \<in> set L" by blast
    with lr(1) assms(3) \<open>n = l\<close> have "min k b \<in> cand E L k"
      unfolding cand_def by blast
    then show ?thesis by blast
  next
    assume "n = r"
    from lr(1) have "l \<in> nodes_of E" unfolding nodes_of_def by force
    with lab obtain a where "(l, Some a) \<in> set L" by blast
    with lr(1) assms(3) \<open>n = r\<close> have "min a k \<in> cand E L k"
      unfolding cand_def by blast
    then show ?thesis by blast
  qed
qed

lemma key_present:
  assumes "fst ` set L = nodes_of E" "(n, c) \<in> set L"
  shows "c \<in> fst ` set (get_component_equivalences E L) \<union> snd ` set (get_component_equivalences E L)"
proof -
  from assms have "n \<in> nodes_of E" by force
  then obtain l r where lr: "(l, r) \<in> set E" "n = l \<or> n = r"
    unfolding nodes_of_def by force
  from lr(1) have "l \<in> nodes_of E" "r \<in> nodes_of E" unfolding nodes_of_def by force+
  with assms(1) obtain a b where ab: "(l, a) \<in> set L" "(r, b) \<in> set L" by force
  from lr(2) show ?thesis
  proof
    assume "n = l"
    with lr(1) assms(2) ab(2) have "(c, b) \<in> set (get_component_equivalences E L)"
      unfolding set_equivalences by blast
    then show ?thesis by force
  next
    assume "n = r"
    with lr(1) assms(2) ab(1) have "(a, c) \<in> set (get_component_equivalences E L)"
      unfolding set_equivalences by blast
    then show ?thesis by force
  qed
qed

lemma concat_map_singletons:
  "(\<And>x. x \<in> set xs \<Longrightarrow> f x = [g x]) \<Longrightarrow> concat (map f xs) = map g xs"
  by (induction xs) auto

lemma updated_labels_step:
  assumes "fst ` set L = nodes_of E" "all_labelled L"
  shows "updated_labels L E = map (\<lambda>(n, c). (n, new_label E L c)) L"
proof -
  have row: "(case [component. (old, component) \<leftarrow> get_component_update_map (get_component_equivalences E L),
                    c \<noteq> None \<and> old = c] of
              [] \<Rightarrow> [(n, None)]
            | ms \<Rightarrow> map (\<lambda>component. (n, component)) ms) = [(n, new_label E L c)]"
    if nc: "(n, c) \<in> set L" for n c
  proof -
    from nc assms(2) obtain k where k: "c = Some k" unfolding all_labelled_def by fastforce
    have ne: "cand E L k \<noteq> {}" using cand_nonempty [OF assms] nc k by blast
    have "agg_min [c. (c, old) \<leftarrow> remdups (map (\<lambda>(a, b). (least a b, a)) (get_component_equivalences E L)
            @ map (\<lambda>(a, b). (least a b, b)) (get_component_equivalences E L)), old = Some k]
          = Some (Min (cand E L k))"
      unfolding agg_min_set candidates_set [OF assms(2)] using ne by simp
    then show ?thesis
      unfolding update_map_lookup
      using key_present [OF assms(1) nc] k
      by (simp only: new_label_def) simp
  qed
  show ?thesis
    unfolding updated_labels_def Let_def
    by (rule concat_map_singletons) (use row in auto)
qed

lemma labels_inv_all_labelled: "labels_inv E L \<Longrightarrow> all_labelled L"
  unfolding labels_inv_def all_labelled_def by fastforce

lemma labels_inv_keys: "labels_inv E L \<Longrightarrow> fst ` set L = nodes_of E"
  unfolding labels_inv_def by simp

lemma length_concat_singletons:
  "(\<And>x. x \<in> set xs \<Longrightarrow> length (f x) = 1) \<Longrightarrow> length (concat (map f xs)) = length xs"
  by (induction xs) auto

lemma length_updated_labels: "length (updated_labels L E) = length L"
  unfolding updated_labels_def Let_def
proof (rule length_concat_singletons)
  fix x :: "nat \<times> nat option"
  obtain n c where x: "x = (n, c)" by (cases x)
  show "length (case x of (record_id, component_old) \<Rightarrow>
          (case [component. (old, component) \<leftarrow> get_component_update_map (get_component_equivalences E L),
                    component_old \<noteq> None \<and> old = component_old] of
              [] \<Rightarrow> [(record_id, None)]
            | ms \<Rightarrow> map (\<lambda>component. (record_id, component)) ms)) = 1"
    unfolding x prod.case update_map_lookup by simp
qed

lemma Min_cand_in:
  assumes "labels_inv E L" "(n, Some k) \<in> set L"
  shows "Min (cand E L k) \<in> cand E L k"
  using cand_nonempty [OF labels_inv_keys [OF assms(1)] labels_inv_all_labelled [OF assms(1)] assms(2)]
    cand_finite by (rule_tac Min_in) auto

lemma cand_connected:
  assumes "labels_inv E L" "c \<in> cand E L k"
  shows "connected E c k"
proof -
  from assms(2) obtain a b l r where *: "c = min a b" "(l, r) \<in> set E" "(l, Some a) \<in> set L"
      "(r, Some b) \<in> set L" "a = k \<or> b = k"
    unfolding cand_def by auto
  from assms(1) * have "connected E a l" "connected E b r"
    unfolding labels_inv_def by auto
  with connected_edge [OF *(2)] have ab: "connected E a b"
    by (meson connected_sym connected_trans)
  have "c = a \<or> c = b" using *(1) by (auto simp: min_def)
  with ab * show ?thesis
    by (auto intro: connected_refl connected_sym)
qed

lemma updated_labels_inv:
  assumes "labels_inv E L"
  shows "labels_inv E (updated_labels L E)"
proof -
  note step = updated_labels_step [OF labels_inv_keys [OF assms] labels_inv_all_labelled [OF assms]]
  have f: "map fst (map (\<lambda>(n, c). (n, new_label E L c)) L) = map fst L"
    by (induction L) auto
  have rows: "\<exists>k'. c' = Some k' \<and> k' \<le> n \<and> connected E k' n"
    if "(n, c') \<in> set (map (\<lambda>(n, c). (n, new_label E L c)) L)" for n c'
  proof -
    from that obtain c where c: "(n, c) \<in> set L" "c' = new_label E L c" by auto
    with assms obtain k where k: "c = Some k" "k \<le> n" "connected E k n"
      unfolding labels_inv_def by fastforce
    from c k have m: "Min (cand E L k) \<in> cand E L k"
      using Min_cand_in [OF assms] by simp
    from cand_le [OF m] cand_connected [OF assms m] k c show ?thesis
      by (auto simp: new_label_def intro: connected_trans)
  qed
  from assms have d: "distinct (map fst L)" and k: "fst ` set L = nodes_of E"
    unfolding labels_inv_def by auto
  have k': "fst ` set (map (\<lambda>(n, c). (n, new_label E L c)) L) = nodes_of E"
    using k f by (metis list.set_map)
  show ?thesis
    unfolding labels_inv_def step
    using d k' rows by (auto simp only: f)
qed

section \<open>Convergence and the result of the loop\<close>

text \<open>
  A round that changes a label lowers the sum of all labels, so from a labeling that
  satisfies the invariant some round changes nothing. The loop is then unrolled up to
  that round, or up to the round limit if that comes first.
\<close>

lemma rounds_Suc: "rounds E (Suc j) L = updated_labels (rounds E j L) E"
  by (induction j arbitrary: L) simp_all

lemma rounds_inv: "labels_inv E L \<Longrightarrow> labels_inv E (rounds E j L)"
  by (induction j arbitrary: L) (simp_all add: updated_labels_inv)

lemma filter_unit_empty:
  "concat (map (\<lambda>y. if Q y then [()] else []) ys) = [] \<longleftrightarrow> (\<forall>y \<in> set ys. \<not> Q y)"
  by (induction ys) auto

lemma join_unit_empty:
  "concat (map (\<lambda>x. concat (map (\<lambda>y. if P x y then [()] else []) ys)) xs) = [] \<longleftrightarrow>
     (\<forall>x \<in> set xs. \<forall>y \<in> set ys. \<not> P x y)"
  by (induction xs) (simp_all add: filter_unit_empty del: concat_eq_Nil_conv)

lemma n_updates_zero_iff:
  "n_updates L L' = 0 \<longleftrightarrow>
     \<not> (\<exists>n c c'. (n, Some c) \<in> set L \<and> (n, Some c') \<in> set L' \<and> c \<noteq> c')"
proof -
  let ?P = "\<lambda>x y. fst x = fst y \<and> snd x \<noteq> None \<and> snd y \<noteq> None \<and> snd x \<noteq> (snd y :: nat option)"
  have "n_updates L L' = length (concat (map (\<lambda>x. concat (map (\<lambda>y. if ?P x y then [()] else []) L')) L))"
    unfolding n_updates_def by (simp only: split_def)
  then have "n_updates L L' = 0 \<longleftrightarrow> (\<forall>x \<in> set L. \<forall>y \<in> set L'. \<not> ?P x y)"
    by (simp only: length_0_conv join_unit_empty)
  also have "\<dots> \<longleftrightarrow> \<not> (\<exists>n c c'. (n, Some c) \<in> set L \<and> (n, Some c') \<in> set L' \<and> c \<noteq> c')"
  proof -
    have ex: "(\<exists>x \<in> set L. \<exists>y \<in> set L'. ?P x y)
      \<longleftrightarrow> (\<exists>n c c'. (n, Some c) \<in> set L \<and> (n, Some c') \<in> set L' \<and> c \<noteq> c')"
    proof
      assume "\<exists>x \<in> set L. \<exists>y \<in> set L'. ?P x y"
      then obtain n c m c' where "(n, c) \<in> set L" "(m, c') \<in> set L'" "n = m" "c \<noteq> None" "c' \<noteq> None" "c \<noteq> c'"
        by auto
      then show "\<exists>n c c'. (n, Some c) \<in> set L \<and> (n, Some c') \<in> set L' \<and> c \<noteq> c'"
        by (cases c; cases c') auto
    next
      assume "\<exists>n c c'. (n, Some c) \<in> set L \<and> (n, Some c') \<in> set L' \<and> c \<noteq> c'"
      then obtain n c c' where "(n, Some c) \<in> set L" "(n, Some c') \<in> set L'" "c \<noteq> c'"
        by blast
      then show "\<exists>x \<in> set L. \<exists>y \<in> set L'. ?P x y"
        by (intro bexI [of _ "(n, Some c)"] bexI [of _ "(n, Some c')"]) simp_all
    qed
    show ?thesis unfolding ex [symmetric] by blast
  qed
  finally show ?thesis .
qed

lemma sum_list_strict:
  "(\<And>x. x \<in> set xs \<Longrightarrow> f x \<le> (g x :: nat)) \<Longrightarrow> \<exists>x \<in> set xs. f x < g x \<Longrightarrow>
     sum_list (map f xs) < sum_list (map g xs)"
proof (induction xs)
  case Nil
  then show ?case by simp
next
  case (Cons a xs)
  have le: "sum_list (map f xs) \<le> sum_list (map g xs)"
    using Cons.prems(1) by (intro sum_list_mono) simp
  show ?case
  proof (cases "f a < g a")
    case True
    with le show ?thesis by simp
  next
    case False
    with Cons.prems have "\<exists>x \<in> set xs. f x < g x" "f a \<le> g a" by auto
    with Cons.IH Cons.prems(1) have "sum_list (map f xs) < sum_list (map g xs)" by simp
    with \<open>f a \<le> g a\<close> show ?thesis by simp
  qed
qed

lemma new_label_le:
  assumes "labels_inv E L" "(n, Some k) \<in> set L"
  shows "\<exists>k'. new_label E L (Some k) = Some k' \<and> k' \<le> k"
  using cand_le [OF Min_cand_in [OF assms]] by (simp add: new_label_def)

lemma label_sum_decreases:
  assumes inv: "labels_inv E L" and upd: "n_updates L (updated_labels L E) \<noteq> 0"
  shows "label_sum (updated_labels L E) < label_sum L"
proof -
  note step = updated_labels_step [OF labels_inv_keys [OF inv] labels_inv_all_labelled [OF inv]]
  let ?w = "\<lambda>(n, c). case c of None \<Rightarrow> (0::nat) | Some k \<Rightarrow> k"
  let ?g = "\<lambda>(n, c). (n, new_label E L c)"
  from inv have all: "\<And>n c. (n, c) \<in> set L \<Longrightarrow> \<exists>k. c = Some k"
    unfolding labels_inv_def by fastforce
  have le: "?w (?g x) \<le> ?w x" if "x \<in> set L" for x
  proof -
    obtain n c where x: "x = (n, c)" by (cases x)
    with all that obtain k where "c = Some k" by blast
    with new_label_le [OF inv] that x show ?thesis by fastforce
  qed
  from upd obtain n c c' where *: "(n, Some c) \<in> set L" "(n, Some c') \<in> set (updated_labels L E)" "c \<noteq> c'"
    unfolding n_updates_zero_iff by blast
  from *(2) obtain d where d: "(n, d) \<in> set L" "Some c' = new_label E L d"
    unfolding step by auto
  from inv have "distinct (map fst L)" unfolding labels_inv_def by simp
  with *(1) d(1) have "d = Some c" by (meson eq_key_imp_eq_value)
  with new_label_le [OF inv *(1)] d(2) *(3) have "c' < c" by auto
  with \<open>d = Some c\<close> d(2) [symmetric] have "?w (?g (n, Some c)) < ?w (n, Some c)" by simp
  with *(1) have "\<exists>x \<in> set L. ?w (?g x) < ?w x" by blast
  with le have "sum_list (map (\<lambda>x. ?w (?g x)) L) < sum_list (map ?w L)"
    by (intro sum_list_strict) auto
  then show ?thesis
    unfolding label_sum_def step by (simp add: comp_def)
qed

lemma exists_converged:
  "labels_inv E L \<Longrightarrow> \<exists>j. n_updates (rounds E j L) (rounds E (Suc j) L) = 0"
proof (induction L rule: measure_induct_rule [where f = label_sum])
  case (less L)
  show ?case
  proof (cases "n_updates L (updated_labels L E) = 0")
    case True
    then have "n_updates (rounds E 0 L) (rounds E (Suc 0) L) = 0" by simp
    then show ?thesis by blast
  next
    case False
    have "\<exists>j. n_updates (rounds E j (updated_labels L E)) (rounds E (Suc j) (updated_labels L E)) = 0"
      by (rule less.IH [OF label_sum_decreases [OF less.prems False] updated_labels_inv [OF less.prems]])
    then obtain j where "n_updates (rounds E j (updated_labels L E)) (rounds E (Suc j) (updated_labels L E)) = 0" ..
    then have "n_updates (rounds E (Suc j) L) (rounds E (Suc (Suc j)) L) = 0" by simp
    then show ?thesis by blast
  qed
qed

lemma cc_loop_converged_at:
  assumes "\<forall>s<j. n_updates (rounds E s L) (rounds E (Suc s) L) \<noteq> 0"
    and "n_updates (rounds E j L) (rounds E (Suc j) L) = 0"
    and "\<forall>s<j. case max_iter of None \<Rightarrow> True | Some m \<Rightarrow> i + int s < m"
  shows "cc_loop E max_iter i L = Some (Inr (rounds E j L))"
  using assms
proof (induction j arbitrary: i L)
  case 0
  then show ?case
    by (subst cc_loop.simps) (simp add: round_body_def length_updated_labels)
next
  case (Suc j)
  from Suc.prems(1) have nz: "n_updates L (updated_labels L E) \<noteq> 0" by force
  from Suc.prems(3) have lim: "\<not> (case max_iter of None \<Rightarrow> False | Some m \<Rightarrow> i \<ge> m)"
    by (force split: option.splits)
  have 1: "\<forall>s<j. n_updates (rounds E s (updated_labels L E)) (rounds E (Suc s) (updated_labels L E)) \<noteq> 0"
    using Suc.prems(1) by (metis Suc_less_eq rounds.simps(2))
  have 2: "n_updates (rounds E j (updated_labels L E)) (rounds E (Suc j) (updated_labels L E)) = 0"
    using Suc.prems(2) by simp
  have 3: "\<forall>s<j. case max_iter of None \<Rightarrow> True | Some m \<Rightarrow> (i + 1) + int s < m"
  proof (intro allI impI)
    fix s assume "s < j"
    then have "Suc s < Suc j" by simp
    with Suc.prems(3) have "case max_iter of None \<Rightarrow> True | Some m \<Rightarrow> i + int (Suc s) < m" by blast
    then show "case max_iter of None \<Rightarrow> True | Some m \<Rightarrow> (i + 1) + int s < m"
      by (simp split: option.splits add: algebra_simps)
  qed
  have "cc_loop E max_iter i L = cc_loop E max_iter (i + 1) (updated_labels L E)"
    using nz lim by (subst cc_loop.simps) (simp add: round_body_def length_updated_labels)
  also have "\<dots> = Some (Inr (rounds E j (updated_labels L E)))"
    by (rule Suc.IH [OF 1 2 3])
  finally show ?case by simp
qed

lemma cc_loop_cut_at:
  assumes "\<forall>s\<le>j. n_updates (rounds E s L) (rounds E (Suc s) L) \<noteq> 0"
    and "\<forall>s<j. i + int s < m"
    and "m \<le> i + int j"
  shows "cc_loop E (Some m) i L = Some (Inr (rounds E (Suc j) L))"
  using assms
proof (induction j arbitrary: i L)
  case 0
  then show ?case
    by (subst cc_loop.simps) (simp add: round_body_def length_updated_labels)
next
  case (Suc j)
  from Suc.prems(1) have nz: "n_updates L (updated_labels L E) \<noteq> 0" by force
  from Suc.prems(2) have lim: "\<not> i \<ge> m" by force
  have 1: "\<forall>s\<le>j. n_updates (rounds E s (updated_labels L E)) (rounds E (Suc s) (updated_labels L E)) \<noteq> 0"
    using Suc.prems(1) by (metis Suc_le_mono rounds.simps(2))
  have 2: "\<forall>s<j. (i + 1) + int s < m"
  proof (intro allI impI)
    fix s assume "s < j"
    then have "Suc s < Suc j" by simp
    with Suc.prems(2) have "i + int (Suc s) < m" by blast
    then show "(i + 1) + int s < m" by simp
  qed
  have 3: "m \<le> (i + 1) + int j" using Suc.prems(3) by simp
  have "cc_loop E (Some m) i L = cc_loop E (Some m) (i + 1) (updated_labels L E)"
    using nz lim by (subst cc_loop.simps) (simp add: round_body_def length_updated_labels)
  also have "\<dots> = Some (Inr (rounds E (Suc j) (updated_labels L E)))"
    by (rule Suc.IH [OF 1 2 3])
  finally show ?case by simp
qed

lemma first_converged:
  assumes "labels_inv E L"
  obtains j where "n_updates (rounds E j L) (rounds E (Suc j) L) = 0"
    and "\<forall>s<j. n_updates (rounds E s L) (rounds E (Suc s) L) \<noteq> 0"
proof -
  define P where "P j \<longleftrightarrow> n_updates (rounds E j L) (rounds E (Suc j) L) = 0" for j
  from exists_converged [OF assms] have "\<exists>j. P j" unfolding P_def .
  then have "P (LEAST j. P j)" "\<forall>s<(LEAST j. P j). \<not> P s"
    using LeastI_ex not_less_Least by blast+
  then show ?thesis using that unfolding P_def by blast
qed

lemma labels_inv_row:
  "labels_inv E L \<Longrightarrow> (n, c) \<in> set L \<Longrightarrow> \<exists>k. c = Some k \<and> k \<le> n \<and> connected E k n"
  unfolding labels_inv_def by fastforce

lemma labels_inv_lookup:
  assumes "labels_inv E L" "n \<in> nodes_of E"
  shows "\<exists>k. (n, Some k) \<in> set L \<and> k \<le> n \<and> connected E k n"
proof -
  from assms have "n \<in> fst ` set L" unfolding labels_inv_def by simp
  then obtain c where c: "(n, c) \<in> set L" by force
  from labels_inv_row [OF assms(1) c] c show ?thesis by blast
qed

lemma fixpoint_edge:
  assumes inv: "labels_inv E L" and fx: "n_updates L (updated_labels L E) = 0"
    and e: "(l, r) \<in> set E" and a: "(l, Some a) \<in> set L" and b: "(r, Some b) \<in> set L"
  shows "a = b"
proof -
  note step = updated_labels_step [OF labels_inv_keys [OF inv] labels_inv_all_labelled [OF inv]]
  have fixed: "Min (cand E L k) = k" if "(n, Some k) \<in> set L" for n k
  proof -
    from that have "(n, new_label E L (Some k)) \<in> set (updated_labels L E)"
      unfolding step by force
    then have "(n, Some (Min (cand E L k))) \<in> set (updated_labels L E)"
      unfolding new_label_def by simp
    moreover from fx have "\<And>n c c'. (n, Some c) \<in> set L \<Longrightarrow> (n, Some c') \<in> set (updated_labels L E) \<Longrightarrow> c' = c"
      unfolding n_updates_zero_iff by blast
    ultimately show ?thesis using that by blast
  qed
  have "min a b \<in> cand E L a" "min a b \<in> cand E L b"
    using e a b unfolding cand_def by blast+
  then have "Min (cand E L a) \<le> min a b" "Min (cand E L b) \<le> min a b"
    by (simp_all only: Min_le [OF cand_finite])
  with fixed [OF a] fixed [OF b] show ?thesis by simp
qed

lemma fixpoint_connected:
  assumes inv: "labels_inv E L" and fx: "n_updates L (updated_labels L E) = 0"
    and c: "connected E x y" and a: "(x, Some a) \<in> set L"
  shows "(y, Some a) \<in> set L"
  using c unfolding connected_def
proof (induction rule: rtrancl_induct)
  case base
  show ?case by (rule a)
next
  case (step y z)
  from step.hyps(2) have "z \<in> nodes_of E" unfolding nodes_of_def by force
  from labels_inv_lookup [OF inv this] obtain b where b: "(z, Some b) \<in> set L" by blast
  from step.hyps(2) have "(y, z) \<in> set E \<or> (z, y) \<in> set E" by simp
  then have "a = b"
  proof
    assume "(y, z) \<in> set E"
    then show ?thesis by (rule fixpoint_edge [OF inv fx _ step.IH b])
  next
    assume "(z, y) \<in> set E"
    then have "b = a" by (rule fixpoint_edge [OF inv fx _ b step.IH])
    then show ?thesis by simp
  qed
  with b show ?case by simp
qed

lemma labels_functional:
  "labels_inv E L \<Longrightarrow> (n, c) \<in> set L \<Longrightarrow> (n, d) \<in> set L \<Longrightarrow> c = d"
  unfolding labels_inv_def by (meson eq_key_imp_eq_value)

lemma fixpoint_same_label_iff:
  assumes inv: "labels_inv E L" and fx: "n_updates L (updated_labels L E) = 0"
    and x: "(x, c) \<in> set L" and y: "(y, d) \<in> set L"
  shows "c = d \<longleftrightarrow> connected E x y"
proof
  assume "c = d"
  from labels_inv_row [OF inv x] obtain a where a: "c = Some a" "connected E a x" by blast
  from labels_inv_row [OF inv y] obtain b where b: "d = Some b" "connected E b y" by blast
  from \<open>c = d\<close> a b show "connected E x y"
    by (auto intro: connected_sym connected_trans)
next
  assume con: "connected E x y"
  from labels_inv_row [OF inv x] obtain a where a: "c = Some a" by blast
  with fixpoint_connected [OF inv fx con] x have "(y, Some a) \<in> set L" by simp
  with labels_functional [OF inv y] a show "c = d" by simp
qed

lemma fixpoint_min_label:
  assumes inv: "labels_inv E L" and fx: "n_updates L (updated_labels L E) = 0"
    and x: "(x, c) \<in> set L"
  shows "\<exists>a. c = Some a \<and> connected E x a \<and> (\<forall>m. connected E x m \<longrightarrow> a \<le> m)"
proof -
  from labels_inv_row [OF inv x] obtain a where a: "c = Some a" "connected E a x" by blast
  have "a \<le> m" if "connected E x m" for m
  proof -
    from fixpoint_connected [OF inv fx that] x a have "(m, Some a) \<in> set L" by simp
    from labels_inv_row [OF inv this] show ?thesis by simp
  qed
  with a show ?thesis by (auto intro: connected_sym)
qed

lemma cc_ints_None:
  obtains j where "connected_components_ints E None = Some (Inr (rounds E j (get_initial_labels E)))"
    and "n_updates (rounds E j (get_initial_labels E)) (rounds E (Suc j) (get_initial_labels E)) = 0"
    and "\<forall>s<j. n_updates (rounds E s (get_initial_labels E)) (rounds E (Suc s) (get_initial_labels E)) \<noteq> 0"
proof -
  from first_converged [OF init_inv [of E]] obtain j where
    j: "n_updates (rounds E j (get_initial_labels E)) (rounds E (Suc j) (get_initial_labels E)) = 0"
       "\<forall>s<j. n_updates (rounds E s (get_initial_labels E)) (rounds E (Suc s) (get_initial_labels E)) \<noteq> 0"
    by blast
  have "connected_components_ints E None = Some (Inr (rounds E j (get_initial_labels E)))"
    unfolding connected_components_ints_def
    by (rule cc_loop_converged_at [OF j(2) j(1)]) simp
  with j that show ?thesis by blast
qed

lemma cc_ints_Some:
  fixes m :: int
  defines "M \<equiv> nat (max 1 m)"
  shows "\<exists>j\<le>M. connected_components_ints E (Some m) = Some (Inr (rounds E j (get_initial_labels E))) \<and>
     ((\<forall>s<M. n_updates (rounds E s (get_initial_labels E)) (rounds E (Suc s) (get_initial_labels E)) \<noteq> 0)
        \<longrightarrow> j = M)"
proof (cases "\<forall>s<M. n_updates (rounds E s (get_initial_labels E)) (rounds E (Suc s) (get_initial_labels E)) \<noteq> 0")
  case True
  have M1: "1 \<le> M" unfolding M_def by simp
  have 1: "\<forall>s\<le>M - 1. n_updates (rounds E s (get_initial_labels E)) (rounds E (Suc s) (get_initial_labels E)) \<noteq> 0"
  proof (intro allI impI)
    fix s assume "s \<le> M - 1"
    with M1 have "s < M" by simp
    with True show "n_updates (rounds E s (get_initial_labels E)) (rounds E (Suc s) (get_initial_labels E)) \<noteq> 0"
      by blast
  qed
  have 2: "\<forall>s<M - 1. 1 + int s < m" unfolding M_def by auto
  have 3: "m \<le> 1 + int (M - 1)" unfolding M_def by auto
  have "connected_components_ints E (Some m) = Some (Inr (rounds E (Suc (M - 1)) (get_initial_labels E)))"
    unfolding connected_components_ints_def by (rule cc_loop_cut_at [OF 1 2 3])
  with M1 show ?thesis by auto
next
  case False
  define P where "P s \<longleftrightarrow> n_updates (rounds E s (get_initial_labels E)) (rounds E (Suc s) (get_initial_labels E)) = 0" for s
  from False obtain s0 where "s0 < M" "P s0" unfolding P_def by blast
  define j where "j = (LEAST s. P s)"
  have Pj: "P j" unfolding j_def using \<open>P s0\<close> by (rule LeastI)
  have jle: "j \<le> s0" unfolding j_def using \<open>P s0\<close> by (rule Least_le)
  have nl: "\<forall>s<j. \<not> P s" unfolding j_def using not_less_Least by blast
  have lim: "\<forall>s<j. case Some m of None \<Rightarrow> True | Some m \<Rightarrow> 1 + int s < m"
    using jle \<open>s0 < M\<close> unfolding M_def by auto
  have "connected_components_ints E (Some m) = Some (Inr (rounds E j (get_initial_labels E)))"
    unfolding connected_components_ints_def
    by (rule cc_loop_converged_at [OF _ _ lim]) (use Pj nl in \<open>auto simp: P_def\<close>)
  moreover from jle \<open>s0 < M\<close> have "j \<le> M" by simp
  ultimately show ?thesis using False by blast
qed

lemma component_finite: "finite {m. connected E n m}"
proof -
  have "connected E n m \<Longrightarrow> m = n \<or> m \<in> nodes_of E" for m
    unfolding connected_def nodes_of_def
    by (induction rule: rtrancl_induct) force+
  then have "{m. connected E n m} \<subseteq> insert n (nodes_of E)" by blast
  moreover have "finite (insert n (nodes_of E))" unfolding nodes_of_def by simp
  ultimately show ?thesis by (rule finite_subset)
qed

section \<open>The converged labeling\<close>

text \<open>
  Claim C5. Run without a round limit, \<^verbatim>\<open>_connected_components_ints\<close> returns a
  labeling of exactly the nodes of the edge list, and the label of every node is the
  least code among the nodes connected to it (every node starts with its own code as
  label, see \<open>get_initial_labels\<close>).
\<close>

theorem converged_label_is_component_minimum:
  "\<exists>L. connected_components_ints E None = Some (Inr L) \<and> fst ` set L = nodes_of E \<and>
       (\<forall>(n, c) \<in> set L. c = Some (Min {m. connected E n m}))"
proof -
  obtain j where j: "connected_components_ints E None = Some (Inr (rounds E j (get_initial_labels E)))"
    and fx: "n_updates (rounds E j (get_initial_labels E)) (rounds E (Suc j) (get_initial_labels E)) = 0"
    by (rule cc_ints_None)
  let ?L = "rounds E j (get_initial_labels E)"
  have inv: "labels_inv E ?L" by (rule rounds_inv [OF init_inv])
  from fx have fx': "n_updates ?L (updated_labels ?L E) = 0" by (simp only: rounds_Suc)
  have "c = Some (Min {m. connected E n m})" if "(n, c) \<in> set ?L" for n c
  proof -
    from fixpoint_min_label [OF inv fx' that] obtain a where
      a: "c = Some a" "connected E n a" "\<forall>m. connected E n m \<longrightarrow> a \<le> m" by blast
    have "Min {m. connected E n m} = a"
      by (rule Min_eqI [OF component_finite]) (use a in auto)
    with a show ?thesis by simp
  qed
  with j labels_inv_keys [OF inv] show ?thesis by blast
qed

theorem converged_label_is_component_minimum_witness:
  "connected_components_ints [(2, 1), (3, 2), (5, 4)] None =
     Some (Inr [(3, Some 1), (5, Some 4), (1, Some 1), (2, Some 1), (4, Some 4)]) \<and>
   Min {m. connected [(2, 1), (3, 2), (5, 4)] 3 m} = (1::nat)"
proof -
  have ev: "connected_components_ints [(2, 1), (3, 2), (5, 4)] None =
     Some (Inr [(3, Some 1), (5, Some 4), (1, Some 1), (2, Some 1), (4, Some 4)])"
    by code_simp
  from converged_label_is_component_minimum [of "[(2, 1), (3, 2), (5, 4)]"] ev
  have "\<forall>(n, c) \<in> set [(3, Some 1), (5, Some 4), (1, Some 1), (2, Some 1), (4, Some (4::nat))].
          c = Some (Min {m. connected [(2, 1), (3, 2), (5, 4)] n m})"
    by simp
  then have "Min {m. connected [(2, 1), (3, 2), (5, 4)] 3 m} = (1::nat)" by simp
  with ev show ?thesis by simp
qed

section \<open>Labels from one round to the next\<close>

lemma least_key_le:
  "a = Some k \<or> b = Some k \<Longrightarrow> \<exists>k'. least a b = Some k' \<and> k' \<le> k"
  by (cases a; cases b) auto

lemma ne_empty: "x \<in> A \<Longrightarrow> A \<noteq> {}"
  by blast

lemma set_select_key: "set [c. (c, old) \<leftarrow> xs, old = key] = {c. (c, key) \<in> set xs}"
  by (induction xs) auto

lemma update_map_row_le:
  assumes "(Some k, new) \<in> set (get_component_update_map eqs)"
  shows "\<exists>k'. new = Some k' \<and> k' \<le> k"
proof -
  let ?tog = "remdups (map (\<lambda>(a, b). (least a b, a)) eqs @ map (\<lambda>(a, b). (least a b, b)) eqs)"
  let ?cs = "[c. (c, old) \<leftarrow> ?tog, old = Some k]"
  let ?S = "{c. Some c \<in> set ?cs}"
  have tog: "set ?tog = (\<lambda>(a, b). (least a b, a)) ` set eqs \<union> (\<lambda>(a, b). (least a b, b)) ` set eqs"
    by simp
  have cs: "set ?cs = {least a b | a b. (a, b) \<in> set eqs \<and> (a = Some k \<or> b = Some k)}"
    unfolding set_select_key tog
  proof (rule set_eqI, rule iffI)
    fix c assume "c \<in> {c. (c, Some k) \<in> (\<lambda>(a, b). (least a b, a)) ` set eqs \<union> (\<lambda>(a, b). (least a b, b)) ` set eqs}"
    then have "(c, Some k) \<in> (\<lambda>(a, b). (least a b, a)) ` set eqs \<or> (c, Some k) \<in> (\<lambda>(a, b). (least a b, b)) ` set eqs"
      by simp
    then show "c \<in> {least a b | a b. (a, b) \<in> set eqs \<and> (a = Some k \<or> b = Some k)}"
    proof
      assume "(c, Some k) \<in> (\<lambda>(a, b). (least a b, a)) ` set eqs"
      then obtain a b where "(a, b) \<in> set eqs" "c = least a b" "a = Some k" by auto
      then show ?thesis by blast
    next
      assume "(c, Some k) \<in> (\<lambda>(a, b). (least a b, b)) ` set eqs"
      then obtain a b where "(a, b) \<in> set eqs" "c = least a b" "b = Some k" by auto
      then show ?thesis by blast
    qed
  next
    fix c assume "c \<in> {least a b | a b. (a, b) \<in> set eqs \<and> (a = Some k \<or> b = Some k)}"
    then obtain a b where ab: "c = least a b" "(a, b) \<in> set eqs" and "a = Some k \<or> b = Some k" by blast
    from this(3) have "(c, Some k) \<in> (\<lambda>(a, b). (least a b, a)) ` set eqs \<or> (c, Some k) \<in> (\<lambda>(a, b). (least a b, b)) ` set eqs"
    proof
      assume "a = Some k"
      with ab have "(c, Some k) = (\<lambda>(a, b). (least a b, a)) (a, b)" by simp
      with ab(2) show ?thesis by blast
    next
      assume "b = Some k"
      with ab have "(c, Some k) = (\<lambda>(a, b). (least a b, b)) (a, b)" by simp
      with ab(2) show ?thesis by blast
    qed
    then show "c \<in> {c. (c, Some k) \<in> (\<lambda>(a, b). (least a b, a)) ` set eqs \<union> (\<lambda>(a, b). (least a b, b)) ` set eqs}"
      by simp
  qed
  from assms have "fst (Some k, new) \<in> fst ` set (get_component_update_map eqs)"
    by (rule imageI)
  then have key: "Some k \<in> fst ` set eqs \<union> snd ` set eqs"
    unfolding set_update_map_keys by simp
  have um: "get_component_update_map eqs =
      map (\<lambda>ko. (ko, agg_min [c. (c, old) \<leftarrow> ?tog, old = ko])) (remdups (map snd ?tog))"
    unfolding get_component_update_map_def Let_def ..
  from assms have new: "new = agg_min ?cs"
    unfolding um by (simp only: set_map) blast
  have mem: "\<exists>k'. c = Some k' \<and> k' \<le> k" if "c \<in> set ?cs" for c
  proof -
    from that cs obtain a b where "c = least a b" "a = Some k \<or> b = Some k" by blast
    with least_key_le [of a k b] show ?thesis by simp
  qed
  from key obtain a b where ab: "(a, b) \<in> set eqs" "a = Some k \<or> b = Some k" by force
  then have "least a b \<in> {least a b | a b. (a, b) \<in> set eqs \<and> (a = Some k \<or> b = Some k)}"
    by blast
  then have in_cs: "least a b \<in> set ?cs" by (simp only: cs)
  from least_key_le [OF ab(2)] obtain k0 where "least a b = Some k0" by blast
  with in_cs have "Some k0 \<in> set ?cs" by simp
  then have "k0 \<in> ?S" by (rule CollectI)
  then have ne: "?S \<noteq> {}" by (rule ne_empty)
  have fin: "finite ?S"
  proof -
    have "inj_on Some ?S" by simp
    moreover have "Some ` ?S \<subseteq> set ?cs" by (rule image_Collect_subsetI)
    ultimately show ?thesis using finite_set by (rule inj_on_finite)
  qed
  from Min_in [OF fin ne] have "Some (Min ?S) \<in> set ?cs" by (rule CollectD)
  from mem [OF this] have "Min ?S \<le> k" by simp
  moreover from ne have "agg_min ?cs = Some (Min ?S)" by (simp only: agg_min_set if_False)
  ultimately show ?thesis using new by simp
qed

lemma reachable_inv: "labels_inv E (rounds E j (get_initial_labels E))"
  by (rule rounds_inv [OF init_inv])

text \<open>
  Claim C9. In every round, the update map sends every old label to a label that is not
  greater (neither of them NULL), and from one round to the next the label of every node
  does not increase.
\<close>

theorem labels_never_increase:
  "(\<forall>(old, new) \<in> set (get_component_update_map
        (get_component_equivalences E (rounds E j (get_initial_labels E)))).
      \<exists>k k'. old = Some k \<and> new = Some k' \<and> k' \<le> k) \<and>
   (\<forall>(n, c) \<in> set (rounds E j (get_initial_labels E)).
      \<forall>(n', c') \<in> set (rounds E (Suc j) (get_initial_labels E)).
        n' = n \<longrightarrow> (\<exists>k k'. c = Some k \<and> c' = Some k' \<and> k' \<le> k))"
proof (intro conjI)
  let ?L = "rounds E j (get_initial_labels E)"
  have inv: "labels_inv E ?L" by (rule reachable_inv)
  have "\<exists>k k'. old = Some k \<and> new = Some k' \<and> k' \<le> k"
    if "(old, new) \<in> set (get_component_update_map (get_component_equivalences E ?L))" for old new
  proof -
    from that have "fst (old, new) \<in> fst ` set (get_component_update_map (get_component_equivalences E ?L))"
      by (rule imageI)
    then have "old \<in> fst ` set (get_component_equivalences E ?L) \<union> snd ` set (get_component_equivalences E ?L)"
      unfolding set_update_map_keys by simp
    then obtain n where "(n, old) \<in> set ?L"
      unfolding set_equivalences by force
    from labels_inv_row [OF inv this] obtain k where "old = Some k" by blast
    with update_map_row_le that show ?thesis by blast
  qed
  then show "\<forall>(old, new) \<in> set (get_component_update_map (get_component_equivalences E ?L)).
      \<exists>k k'. old = Some k \<and> new = Some k' \<and> k' \<le> k"
    by blast
next
  let ?L = "rounds E j (get_initial_labels E)"
  have inv: "labels_inv E ?L" by (rule reachable_inv)
  note step = updated_labels_step [OF labels_inv_keys [OF inv] labels_inv_all_labelled [OF inv]]
  have "\<exists>k k'. c = Some k \<and> c' = Some k' \<and> k' \<le> k"
    if "(n, c) \<in> set ?L" "(n, c') \<in> set (updated_labels ?L E)" for n c c'
  proof -
    from that(2) obtain d where d: "(n, d) \<in> set ?L" "c' = new_label E ?L d"
      unfolding step by auto
    from labels_functional [OF inv that(1) d(1)] have "d = c" by simp
    from labels_inv_row [OF inv that(1)] obtain k where k: "c = Some k" by blast
    from new_label_le [OF inv] that(1) k d \<open>d = c\<close> show ?thesis by blast
  qed
  then show "\<forall>(n, c) \<in> set ?L. \<forall>(n', c') \<in> set (rounds E (Suc j) (get_initial_labels E)).
        n' = n \<longrightarrow> (\<exists>k k'. c = Some k \<and> c' = Some k' \<and> k' \<le> k)"
    unfolding rounds_Suc by blast
qed

theorem labels_never_increase_witness:
  "(Some 2, Some 1) \<in> set (get_component_update_map
      (get_component_equivalences [(1, 2)] (rounds [(1, 2)] 0 (get_initial_labels [(1, 2)])))) \<and>
   (2, Some 2) \<in> set (rounds [(1, 2)] 0 (get_initial_labels [(1, 2)])) \<and>
   (2, Some 1) \<in> set (rounds [(1, 2)] (Suc 0) (get_initial_labels [(1, 2)])) \<and>
   (\<exists>k k'. Some (2::nat) = Some k \<and> Some (1::nat) = Some k' \<and> k' \<le> k)"
proof -
  have a: "(Some 2, Some 1) \<in> set (get_component_update_map
      (get_component_equivalences [(1, 2)] (rounds [(1, 2)] 0 (get_initial_labels [(1, 2)]))))"
    by code_simp
  have b: "(2, Some 2) \<in> set (rounds [(1, 2)] 0 (get_initial_labels [(1, 2)]))"
    by code_simp
  have c: "(2, Some 1) \<in> set (rounds [(1, 2)] (Suc 0) (get_initial_labels [(1, 2)]))"
    by code_simp
  from labels_never_increase [of "[(1, 2)]" 0] a
  have "\<exists>k k'. Some (2::nat) = Some k \<and> Some (1::nat) = Some k' \<and> k' \<le> k"
    by blast
  with a b c show ?thesis by blast
qed

text \<open>
  Claim C10. In every round, every label that a node carries is not NULL and is a key
  (\<^verbatim>\<open>component_old\<close>) of the update map, and the labeling that the left join of
  \<^verbatim>\<open>_updated_labels\<close> produces has no NULL label.
\<close>

theorem labels_never_null:
  "(\<forall>(n, c) \<in> set (rounds E j (get_initial_labels E)).
      c \<noteq> None \<and>
      c \<in> fst ` set (get_component_update_map
                      (get_component_equivalences E (rounds E j (get_initial_labels E))))) \<and>
   (\<forall>(n, c) \<in> set (updated_labels (rounds E j (get_initial_labels E)) E). c \<noteq> None)"
proof -
  let ?L = "rounds E j (get_initial_labels E)"
  have inv: "labels_inv E ?L" by (rule reachable_inv)
  have inv': "labels_inv E (updated_labels ?L E)" by (rule updated_labels_inv [OF inv])
  have 1: "c \<noteq> None" if "(n, c) \<in> set ?L" for n c
    using labels_inv_row [OF inv that] by blast
  have 2: "c \<in> fst ` set (get_component_update_map (get_component_equivalences E ?L))"
    if "(n, c) \<in> set ?L" for n c
    unfolding set_update_map_keys by (rule key_present [OF labels_inv_keys [OF inv] that])
  have 3: "c \<noteq> None" if "(n, c) \<in> set (updated_labels ?L E)" for n c
    using labels_inv_row [OF inv' that] by blast
  from 1 2 3 show ?thesis by blast
qed

theorem labels_never_null_witness:
  "(2, Some 1) \<in> set (rounds [(1, 2), (2, 3)] (Suc 0) (get_initial_labels [(1, 2), (2, 3)])) \<and>
   Some 1 \<in> fst ` set (get_component_update_map
      (get_component_equivalences [(1, 2), (2, 3)]
         (rounds [(1, 2), (2, 3)] (Suc 0) (get_initial_labels [(1, 2), (2, 3)])))) \<and>
   (3, Some 1) \<in> set (updated_labels
      (rounds [(1, 2), (2, 3)] (Suc 0) (get_initial_labels [(1, 2), (2, 3)])) [(1, 2), (2, 3)])"
proof -
  have a: "(2, Some 1) \<in> set (rounds [(1, 2), (2, 3)] (Suc 0) (get_initial_labels [(1, 2), (2, 3)]))"
    by code_simp
  have b: "(3, Some 1) \<in> set (updated_labels
      (rounds [(1, 2), (2, 3)] (Suc 0) (get_initial_labels [(1, 2), (2, 3)])) [(1, 2), (2, 3)])"
    by code_simp
  from labels_never_null [of "[(1, 2), (2, 3)]" "Suc 0"] a
  have "Some 1 \<in> fst ` set (get_component_update_map
      (get_component_equivalences [(1, 2), (2, 3)]
         (rounds [(1, 2), (2, 3)] (Suc 0) (get_initial_labels [(1, 2), (2, 3)]))))"
    by blast
  with a b show ?thesis by blast
qed

lemma initial_labels_count: "length (get_initial_labels E) = card (nodes_of E)"
proof -
  have "length (get_initial_labels E) = card (fst ` set (get_initial_labels E))"
    using init_inv [of E] unfolding labels_inv_def
    by (metis distinct_card length_map list.set_map)
  also have "\<dots> = card (nodes_of E)"
    by (simp only: labels_inv_keys [OF init_inv])
  finally show ?thesis .
qed

lemma rounds_length: "length (rounds E j L) = length L"
  by (induction j arbitrary: L) (simp_all add: length_updated_labels)

text \<open>
  Claim C4. A round keeps the number of rows: the new labeling has as many rows as the
  previous one, and in every round that number is the number of distinct nodes of the
  edge list. The loop body compares the two row counts, and raises the assertion error
  instead of returning or continuing with a labeling when they differ.
\<close>

theorem row_count_invariant:
  "length (updated_labels labels edges) = length labels \<and>
   length (rounds edges j (get_initial_labels edges)) = card (nodes_of edges) \<and>
   (length labels \<noteq> length new_labels \<longrightarrow>
      round_body max_iter i labels new_labels = Raise AssertionError) \<and>
   round_body max_iter i labels (updated_labels labels edges) \<noteq> Raise AssertionError"
  by (simp add: length_updated_labels rounds_length initial_labels_count round_body_def)

theorem row_count_invariant_witness:
  "length [(1::nat, Some (1::nat)), (2, Some 2)] \<noteq> length [(1::nat, Some (1::nat))] \<and>
   round_body None 1 [(1, Some 1), (2, Some 2)] [(1, Some 1)] = Raise AssertionError \<and>
   length (updated_labels [(1, Some 1), (2, Some 2)] [(1, 2)]) = 2"
  using row_count_invariant [of "[(1, Some 1), (2, Some 2)]" "[(1, 2)]" 0 "[(1, Some 1)]" None 1]
  by simp

section \<open>The round limit\<close>

text \<open>
  Claim C3, as amended. With a round limit \<open>m\<close> the computation always returns a
  labeling and never an error: the labeling after at most \<open>max 1 m\<close> rounds. When the
  limit is reached before a round without changes, the value returned is the labeling
  after exactly \<open>max 1 m\<close> rounds. The value returned is the labeling alone.
\<close>

theorem round_limit_returns_labeling:
  "\<exists>j \<le> nat (max 1 m).
     connected_components_ints E (Some m) = Some (Inr (rounds E j (get_initial_labels E))) \<and>
     ((\<forall>s < nat (max 1 m).
          n_updates (rounds E s (get_initial_labels E)) (rounds E (Suc s) (get_initial_labels E)) \<noteq> 0)
        \<longrightarrow> j = nat (max 1 m))"
  by (rule cc_ints_Some)

theorem round_limit_returns_labeling_witness:
  "n_updates (rounds [(0, 1), (1, 2), (2, 3)] 0 (get_initial_labels [(0, 1), (1, 2), (2, 3)]))
     (rounds [(0, 1), (1, 2), (2, 3)] (Suc 0) (get_initial_labels [(0, 1), (1, 2), (2, 3)])) \<noteq> 0 \<and>
   connected_components_ints [(0, 1), (1, 2), (2, 3)] (Some 1) =
     Some (Inr (rounds [(0, 1), (1, 2), (2, 3)] (Suc 0) (get_initial_labels [(0, 1), (1, 2), (2, 3)])))"
proof -
  have nz: "n_updates (rounds [(0, 1), (1, 2), (2, 3)] 0 (get_initial_labels [(0, 1), (1, 2), (2, 3)]))
     (rounds [(0, 1), (1, 2), (2, 3)] (Suc 0) (get_initial_labels [(0, 1), (1, 2), (2, 3)])) \<noteq> 0"
    by code_simp
  from round_limit_returns_labeling [of 1 "[(0, 1), (1, 2), (2, 3)]"] nz
  show ?thesis by auto
qed

text \<open>
  Against claim C3 as stated: two runs with the same round limit return the same value,
  although the first is stopped by the limit in a round that still changes a label and
  the second leaves the loop through the convergence test. Nothing in the value returned
  tells the two apart.
\<close>

theorem no_convergence_indicator:
  "connected_components_ints [(0, 1), (1, 2)] (Some 2) =
     connected_components_ints [(0, 1), (0, 2)] (Some 2) \<and>
   n_updates (rounds [(0, 1), (1, 2)] 1 (get_initial_labels [(0, 1), (1, 2)]))
     (rounds [(0, 1), (1, 2)] 2 (get_initial_labels [(0, 1), (1, 2)])) \<noteq> 0 \<and>
   n_updates (rounds [(0, 1), (0, 2)] 1 (get_initial_labels [(0, 1), (0, 2)]))
     (rounds [(0, 1), (0, 2)] 2 (get_initial_labels [(0, 1), (0, 2)])) = 0"
  by code_simp

section \<open>The number of rounds on a path\<close>

lemma set_initial_labels: "set (get_initial_labels E) = (\<lambda>n. (n, Some n)) ` nodes_of E"
  unfolding get_initial_labels_def nodes_of_def Let_def
  by (force simp: image_Un image_image split_def)

text \<open>
  A round that changes a label removes a label from use: the replacement of labels maps
  the labels in use into themselves and never upwards, so it is the identity once it is
  onto. Hence at most as many rounds change a label as there are nodes, less one.
\<close>

lemma finite_labels_in_use: "finite (labels_in_use L)"
proof -
  have "labels_in_use L \<subseteq> the ` snd ` set L" unfolding labels_in_use_def by force
  then show ?thesis by (rule finite_subset) simp
qed

lemma labels_in_use_step:
  assumes inv: "labels_inv E L"
  shows "labels_in_use (updated_labels L E) = (\<lambda>k. Min (cand E L k)) ` labels_in_use L"
proof -
  note step = updated_labels_step [OF labels_inv_keys [OF inv] labels_inv_all_labelled [OF inv]]
  show ?thesis
  proof (rule set_eqI, rule iffI)
    fix k' assume "k' \<in> labels_in_use (updated_labels L E)"
    then obtain n where "(n, Some k') \<in> set (updated_labels L E)" unfolding labels_in_use_def by blast
    then obtain c where c: "(n, c) \<in> set L" "Some k' = new_label E L c" unfolding step by auto
    from labels_inv_row [OF inv c(1)] obtain k where k: "c = Some k" by blast
    with c have "k \<in> labels_in_use L" "k' = Min (cand E L k)"
      unfolding labels_in_use_def new_label_def by auto
    then show "k' \<in> (\<lambda>k. Min (cand E L k)) ` labels_in_use L" by blast
  next
    fix k' assume "k' \<in> (\<lambda>k. Min (cand E L k)) ` labels_in_use L"
    then obtain k n where k: "(n, Some k) \<in> set L" "k' = Min (cand E L k)"
      unfolding labels_in_use_def by blast
    then have "(n, new_label E L (Some k)) \<in> set (updated_labels L E)" unfolding step by force
    with k(2) show "k' \<in> labels_in_use (updated_labels L E)"
      unfolding labels_in_use_def new_label_def by auto
  qed
qed

lemma Min_cand_in_use:
  assumes inv: "labels_inv E L" and k: "k \<in> labels_in_use L"
  shows "Min (cand E L k) \<in> labels_in_use L" "Min (cand E L k) \<le> k"
proof -
  from k obtain n where n: "(n, Some k) \<in> set L" unfolding labels_in_use_def by blast
  from Min_cand_in [OF inv n] have m: "Min (cand E L k) \<in> cand E L k" .
  then obtain a b l r where "Min (cand E L k) = min a b" "(l, Some a) \<in> set L" "(r, Some b) \<in> set L"
    unfolding cand_def by blast
  then show "Min (cand E L k) \<in> labels_in_use L"
    unfolding labels_in_use_def by (auto simp: min_def)
  from cand_le [OF m] show "Min (cand E L k) \<le> k" .
qed

lemma shrinking_image:
  fixes f :: "nat \<Rightarrow> nat"
  assumes fin: "finite S" and sub: "f ` S \<subseteq> S" and le: "\<And>k. k \<in> S \<Longrightarrow> f k \<le> k"
    and ch: "k0 \<in> S" "f k0 \<noteq> k0"
  shows "card (f ` S) < card S"
proof (rule ccontr)
  assume "\<not> card (f ` S) < card S"
  moreover from fin sub have "card (f ` S) \<le> card S" by (rule card_mono)
  ultimately have "card (f ` S) = card S" by simp
  with fin have inj: "inj_on f S" by (rule eq_card_imp_inj_on)
  define k where "k = (LEAST k. k \<in> S \<and> f k \<noteq> k)"
  from ch have k: "k \<in> S \<and> f k \<noteq> k" unfolding k_def by (intro LeastI [of "\<lambda>k. k \<in> S \<and> f k \<noteq> k" k0]) simp
  with le have lt: "f k < k" by fastforce
  from k sub have inS: "f k \<in> S" by blast
  have "f (f k) = f k"
  proof (rule ccontr)
    assume "f (f k) \<noteq> f k"
    with inS have "k \<le> f k" unfolding k_def by (intro Least_le) simp
    with lt show False by simp
  qed
  with inj inS k have "f k = k" by (meson inj_onD)
  with k show False by simp
qed

lemma labels_in_use_shrinks:
  assumes inv: "labels_inv E L" and upd: "n_updates L (updated_labels L E) \<noteq> 0"
  shows "card (labels_in_use (updated_labels L E)) < card (labels_in_use L)"
proof -
  note step = updated_labels_step [OF labels_inv_keys [OF inv] labels_inv_all_labelled [OF inv]]
  from upd obtain n c c' where *: "(n, Some c) \<in> set L" "(n, Some c') \<in> set (updated_labels L E)" "c \<noteq> c'"
    unfolding n_updates_zero_iff by blast
  from *(2) obtain d where d: "(n, d) \<in> set L" "Some c' = new_label E L d"
    unfolding step by auto
  from labels_functional [OF inv *(1) d(1)] have "d = Some c" by simp
  with d(2) have "c' = Min (cand E L c)"
    unfolding new_label_def by simp
  with *(3) have ch: "Min (cand E L c) \<noteq> c" by simp
  from *(1) have cin: "c \<in> labels_in_use L" unfolding labels_in_use_def by blast
  have "card ((\<lambda>k. Min (cand E L k)) ` labels_in_use L) < card (labels_in_use L)"
  proof (rule shrinking_image [where f = "\<lambda>k. Min (cand E L k)" and S = "labels_in_use L" and ?k0.0 = c])
    show "finite (labels_in_use L)" by (rule finite_labels_in_use)
    show "c \<in> labels_in_use L" by (rule cin)
    show "Min (cand E L c) \<noteq> c" by (rule ch)
    show "(\<lambda>k. Min (cand E L k)) ` labels_in_use L \<subseteq> labels_in_use L"
      using Min_cand_in_use(1) [OF inv] by blast
    show "Min (cand E L k) \<le> k" if "k \<in> labels_in_use L" for k
      using that by (rule Min_cand_in_use(2) [OF inv])
  qed
  then show ?thesis unfolding labels_in_use_step [OF inv] .
qed

lemma labels_in_use_rounds:
  assumes inv: "labels_inv E L"
    and nz: "\<forall>s<j. n_updates (rounds E s L) (rounds E (Suc s) L) \<noteq> 0"
  shows "card (labels_in_use (rounds E j L)) + j \<le> card (labels_in_use L)"
  using nz
proof (induction j)
  case 0
  show ?case by simp
next
  case (Suc j)
  from Suc.prems have "\<forall>s<j. n_updates (rounds E s L) (rounds E (Suc s) L) \<noteq> 0" by simp
  then have IH: "card (labels_in_use (rounds E j L)) + j \<le> card (labels_in_use L)" by (rule Suc.IH)
  from Suc.prems have "n_updates (rounds E j L) (rounds E (Suc j) L) \<noteq> 0" by blast
  then have nz': "n_updates (rounds E j L) (updated_labels (rounds E j L) E) \<noteq> 0"
    unfolding rounds_Suc .
  have "card (labels_in_use (rounds E (Suc j) L)) < card (labels_in_use (rounds E j L))"
    unfolding rounds_Suc by (rule labels_in_use_shrinks [OF rounds_inv [OF inv] nz'])
  with IH show ?case by simp
qed

lemma labels_in_use_initial: "labels_in_use (get_initial_labels E) = nodes_of E"
  unfolding labels_in_use_def set_initial_labels by auto

lemma labels_in_use_nonempty:
  assumes inv: "labels_inv E L" and ne: "nodes_of E \<noteq> {}"
  shows "1 \<le> card (labels_in_use L)"
proof -
  from ne obtain n where "n \<in> nodes_of E" by blast
  from labels_inv_lookup [OF inv this] have "labels_in_use L \<noteq> {}"
    unfolding labels_in_use_def by blast
  with finite_labels_in_use [of L] show ?thesis
    by (simp add: Suc_le_eq card_gt_0_iff)
qed

lemma rounds_bound:
  assumes nz: "\<forall>s<j. n_updates (rounds E s (get_initial_labels E)) (rounds E (Suc s) (get_initial_labels E)) \<noteq> 0"
  shows "j \<le> card (nodes_of E) - 1"
proof (cases "nodes_of E = {}")
  case True
  then have "get_initial_labels E = []" using set_initial_labels [of E] by simp
  then have "n_updates (rounds E 0 (get_initial_labels E)) (rounds E (Suc 0) (get_initial_labels E)) = 0"
    by (simp add: n_updates_def updated_labels_def)
  with nz have "j = 0" by (metis not_gr_zero)
  then show ?thesis by simp
next
  case False
  from labels_in_use_rounds [OF init_inv nz]
  have "card (labels_in_use (rounds E j (get_initial_labels E))) + j \<le> card (nodes_of E)"
    by (simp only: labels_in_use_initial)
  with labels_in_use_nonempty [OF reachable_inv False, of j] show ?thesis by simp
qed

lemma cc_ints_None_bounded:
  "\<exists>j \<le> card (nodes_of E) - 1.
     connected_components_ints E None = Some (Inr (rounds E j (get_initial_labels E))) \<and>
     n_updates (rounds E j (get_initial_labels E)) (rounds E (Suc j) (get_initial_labels E)) = 0"
proof -
  obtain j where j: "connected_components_ints E None = Some (Inr (rounds E j (get_initial_labels E)))"
    "n_updates (rounds E j (get_initial_labels E)) (rounds E (Suc j) (get_initial_labels E)) = 0"
    "\<forall>s<j. n_updates (rounds E s (get_initial_labels E)) (rounds E (Suc s) (get_initial_labels E)) \<noteq> 0"
    by (rule cc_ints_None)
  from rounds_bound [OF j(3)] j(1,2) show ?thesis by blast
qed

lemma chain_nodes: "1 \<le> k \<Longrightarrow> nodes_of (chain_edges k) = {0..k}"
proof -
  assume k: "1 \<le> k"
  have "fst ` set (chain_edges k) = {0..<k}" "snd ` set (chain_edges k) = Suc ` {0..<k}"
    unfolding chain_edges_def by (simp_all add: image_image)
  moreover have "Suc ` {0..<k} = {1..k}"
    by (metis atLeastLessThanSuc_atLeastAtMost image_Suc_atLeastLessThan One_nat_def)
  moreover have "{0..<k} \<union> {1..k} = {0..k}" using k by auto
  ultimately show ?thesis unfolding nodes_of_def by simp
qed

lemma chain_cand:
  assumes L: "set L = (\<lambda>j. (j, Some (j - t))) ` {0..k}"
  shows "cand (chain_edges k) L c = {i - t | i. i < k \<and> (i - t = c \<or> Suc i - t = c)}"
proof (rule set_eqI, rule iffI)
  fix y assume "y \<in> cand (chain_edges k) L c"
  then obtain a b l r where *: "y = min a b" "(l, r) \<in> set (chain_edges k)" "(l, Some a) \<in> set L"
      "(r, Some b) \<in> set L" "a = c \<or> b = c"
    unfolding cand_def by blast
  from *(2) have "l < k" "r = Suc l" unfolding chain_edges_def by auto
  moreover from *(3,4) have "a = l - t" "b = r - t" unfolding L by auto
  ultimately show "y \<in> {i - t | i. i < k \<and> (i - t = c \<or> Suc i - t = c)}"
    using * by (auto simp: min_def)
next
  fix y assume "y \<in> {i - t | i. i < k \<and> (i - t = c \<or> Suc i - t = c)}"
  then obtain i where i: "y = i - t" "i < k" "i - t = c \<or> Suc i - t = c" by blast
  have "(i, Suc i) \<in> set (chain_edges k)" using i(2) unfolding chain_edges_def by auto
  moreover have "(i, Some (i - t)) \<in> set L" "(Suc i, Some (Suc i - t)) \<in> set L"
    using i(2) unfolding L by auto
  moreover have "y = min (i - t) (Suc i - t)" using i(1) by (auto simp: min_def)
  ultimately show "y \<in> cand (chain_edges k) L c"
    unfolding cand_def using i(3) by blast
qed

lemma chain_Min_cand:
  assumes L: "set L = (\<lambda>j. (j, Some (j - t))) ` {0..k}" and k: "1 \<le> k" and j: "j \<le> k"
  shows "Min (cand (chain_edges k) L (j - t)) = j - Suc t"
proof (rule Min_eqI [OF cand_finite])
  fix y assume "y \<in> cand (chain_edges k) L (j - t)"
  then show "j - Suc t \<le> y" unfolding chain_cand [OF L] by auto
next
  show "j - Suc t \<in> cand (chain_edges k) L (j - t)"
  proof (cases "j - t = 0")
    case True
    with k have "j - Suc t = 0 - t \<and> 0 < k \<and> (0 - t = j - t \<or> Suc 0 - t = j - t)" by auto
    then have "\<exists>i. j - Suc t = i - t \<and> i < k \<and> (i - t = j - t \<or> Suc i - t = j - t)" by (rule exI)
    then show ?thesis unfolding chain_cand [OF L] by (rule CollectI)
  next
    case False
    with j have "j - Suc t = (j - 1) - t \<and> j - 1 < k \<and> ((j - 1) - t = j - t \<or> Suc (j - 1) - t = j - t)"
      by auto
    then have "\<exists>i. j - Suc t = i - t \<and> i < k \<and> (i - t = j - t \<or> Suc i - t = j - t)" by (rule exI)
    then show ?thesis unfolding chain_cand [OF L] by (rule CollectI)
  qed
qed

lemma chain_rounds_set:
  assumes k: "1 \<le> k"
  shows "set (rounds (chain_edges k) t (get_initial_labels (chain_edges k))) =
           (\<lambda>j. (j, Some (j - t))) ` {0..k}"
proof (induction t)
  case 0
  show ?case by (simp add: set_initial_labels chain_nodes [OF k])
next
  case (Suc t)
  let ?E = "chain_edges k"
  let ?L = "rounds ?E t (get_initial_labels ?E)"
  have inv: "labels_inv ?E ?L" by (rule reachable_inv)
  note step = updated_labels_step [OF labels_inv_keys [OF inv] labels_inv_all_labelled [OF inv]]
  have "set (rounds ?E (Suc t) (get_initial_labels ?E)) = (\<lambda>(n, c). (n, new_label ?E ?L c)) ` set ?L"
    unfolding rounds_Suc step by simp
  also have "\<dots> = (\<lambda>j. (j, new_label ?E ?L (Some (j - t)))) ` {0..k}"
    unfolding Suc.IH by (simp add: image_image)
  also have "\<dots> = (\<lambda>j. (j, Some (j - Suc t))) ` {0..k}"
    by (rule image_cong) (simp_all add: new_label_def chain_Min_cand [OF Suc.IH k])
  finally show ?case .
qed

lemma chain_still_updates:
  assumes k: "1 \<le> k" and t: "t < k"
  shows "n_updates (rounds (chain_edges k) t (get_initial_labels (chain_edges k)))
           (rounds (chain_edges k) (Suc t) (get_initial_labels (chain_edges k))) \<noteq> 0"
proof -
  have "(k, Some (k - t)) \<in> set (rounds (chain_edges k) t (get_initial_labels (chain_edges k)))"
    "(k, Some (k - Suc t)) \<in> set (rounds (chain_edges k) (Suc t) (get_initial_labels (chain_edges k)))"
    unfolding chain_rounds_set [OF k] by simp_all
  moreover from t have "k - t \<noteq> k - Suc t" by simp
  ultimately show ?thesis unfolding n_updates_zero_iff by blast
qed

lemma chain_converged:
  assumes k: "1 \<le> k"
  shows "n_updates (rounds (chain_edges k) k (get_initial_labels (chain_edges k)))
           (rounds (chain_edges k) (Suc k) (get_initial_labels (chain_edges k))) = 0"
proof -
  have "c = 0" if "(n, Some c) \<in> set (rounds (chain_edges k) k (get_initial_labels (chain_edges k)))" for n c
    using that unfolding chain_rounds_set [OF k] by auto
  moreover have "c = 0"
    if "(n, Some c) \<in> set (rounds (chain_edges k) (Suc k) (get_initial_labels (chain_edges k)))" for n c
    using that unfolding chain_rounds_set [OF k] by auto
  ultimately show ?thesis unfolding n_updates_zero_iff by blast
qed

lemma chain_cut:
  assumes k: "1 \<le> k" and m: "1 \<le> m" "m \<le> k"
  shows "connected_components_ints (chain_edges k) (Some (int m)) =
           Some (Inr (rounds (chain_edges k) m (get_initial_labels (chain_edges k))))"
proof -
  have 1: "\<forall>s\<le>m - 1. n_updates (rounds (chain_edges k) s (get_initial_labels (chain_edges k)))
           (rounds (chain_edges k) (Suc s) (get_initial_labels (chain_edges k))) \<noteq> 0"
  proof (intro allI impI)
    fix s assume "s \<le> m - 1"
    with m have "s < k" by simp
    then show "n_updates (rounds (chain_edges k) s (get_initial_labels (chain_edges k)))
           (rounds (chain_edges k) (Suc s) (get_initial_labels (chain_edges k))) \<noteq> 0"
      by (rule chain_still_updates [OF k])
  qed
  have 2: "\<forall>s<m - 1. 1 + int s < int m" by auto
  have 3: "int m \<le> 1 + int (m - 1)" using m by simp
  have "connected_components_ints (chain_edges k) (Some (int m)) =
           Some (Inr (rounds (chain_edges k) (Suc (m - 1)) (get_initial_labels (chain_edges k))))"
    unfolding connected_components_ints_def by (rule cc_loop_cut_at [OF 1 2 3])
  with m show ?thesis by simp
qed

lemma chain_unlimited:
  assumes k: "1 \<le> k"
  shows "connected_components_ints (chain_edges k) None =
           Some (Inr (rounds (chain_edges k) k (get_initial_labels (chain_edges k))))"
  unfolding connected_components_ints_def
proof (rule cc_loop_converged_at)
  show "\<forall>s<k. n_updates (rounds (chain_edges k) s (get_initial_labels (chain_edges k)))
           (rounds (chain_edges k) (Suc s) (get_initial_labels (chain_edges k))) \<noteq> 0"
    using chain_still_updates [OF k] by blast
  show "n_updates (rounds (chain_edges k) k (get_initial_labels (chain_edges k)))
           (rounds (chain_edges k) (Suc k) (get_initial_labels (chain_edges k))) = 0"
    by (rule chain_converged [OF k])
  show "\<forall>s<k. case None of None \<Rightarrow> True | Some m \<Rightarrow> 1 + int s < m"
    by simp
qed

text \<open>
  Claim C2, as amended. The number of rounds is linear, not logarithmic. For every edge
  list, the loop run without a limit leaves through the convergence test after at most
  \<open>N - 1\<close> rounds that change a label, \<open>N\<close> being the number of nodes; that is at most \<open>k\<close>
  rounds on a path graph of \<open>k\<close> edges, however its nodes are coded. The bound is reached:
  on the path graph of \<open>k\<close> edges whose nodes are coded in path order, every one of the
  first \<open>k\<close> rounds changes a label and round \<open>k + 1\<close> is the first without a change;
  with a round limit \<open>m\<close> between 1 and \<open>k\<close> the loop returns the labeling after \<open>m\<close>
  rounds, in which node \<open>j\<close> carries the label \<open>j - m\<close> (0 when \<open>j < m\<close>).
\<close>

theorem chain_needs_linear_rounds:
  "(\<exists>j \<le> card (nodes_of E) - 1.
      connected_components_ints E None = Some (Inr (rounds E j (get_initial_labels E))) \<and>
      n_updates (rounds E j (get_initial_labels E)) (rounds E (Suc j) (get_initial_labels E)) = 0) \<and>
   (1 \<le> k \<longrightarrow>
     (\<forall>t<k. n_updates (rounds (chain_edges k) t (get_initial_labels (chain_edges k)))
               (rounds (chain_edges k) (Suc t) (get_initial_labels (chain_edges k))) \<noteq> 0) \<and>
     n_updates (rounds (chain_edges k) k (get_initial_labels (chain_edges k)))
       (rounds (chain_edges k) (Suc k) (get_initial_labels (chain_edges k))) = 0 \<and>
     (\<forall>m. 1 \<le> m \<and> m \<le> k \<longrightarrow>
        (\<exists>L. connected_components_ints (chain_edges k) (Some (int m)) = Some (Inr L) \<and>
             set L = (\<lambda>j. (j, Some (j - m))) ` {0..k})))"
proof (rule conjI)
  show "\<exists>j \<le> card (nodes_of E) - 1.
      connected_components_ints E None = Some (Inr (rounds E j (get_initial_labels E))) \<and>
      n_updates (rounds E j (get_initial_labels E)) (rounds E (Suc j) (get_initial_labels E)) = 0"
    by (rule cc_ints_None_bounded)
  show "1 \<le> k \<longrightarrow>
     (\<forall>t<k. n_updates (rounds (chain_edges k) t (get_initial_labels (chain_edges k)))
               (rounds (chain_edges k) (Suc t) (get_initial_labels (chain_edges k))) \<noteq> 0) \<and>
     n_updates (rounds (chain_edges k) k (get_initial_labels (chain_edges k)))
       (rounds (chain_edges k) (Suc k) (get_initial_labels (chain_edges k))) = 0 \<and>
     (\<forall>m. 1 \<le> m \<and> m \<le> k \<longrightarrow>
        (\<exists>L. connected_components_ints (chain_edges k) (Some (int m)) = Some (Inr L) \<and>
             set L = (\<lambda>j. (j, Some (j - m))) ` {0..k}))"
    using chain_still_updates chain_converged chain_cut chain_rounds_set by auto
qed

theorem chain_needs_linear_rounds_witness:
  "(1::nat) \<le> 3 \<and>
   n_updates (rounds (chain_edges 3) 2 (get_initial_labels (chain_edges 3)))
     (rounds (chain_edges 3) (Suc 2) (get_initial_labels (chain_edges 3))) \<noteq> 0 \<and>
   n_updates (rounds (chain_edges 3) 3 (get_initial_labels (chain_edges 3)))
     (rounds (chain_edges 3) (Suc 3) (get_initial_labels (chain_edges 3))) = 0 \<and>
   card (nodes_of (chain_edges 3)) - 1 = 3"
proof -
  have k: "(1::nat) \<le> 3" and t: "(2::nat) < 3" by simp_all
  from chain_needs_linear_rounds [of "chain_edges 3" 3] k
  have "(\<forall>t<3. n_updates (rounds (chain_edges 3) t (get_initial_labels (chain_edges 3)))
             (rounds (chain_edges 3) (Suc t) (get_initial_labels (chain_edges 3))) \<noteq> 0) \<and>
     n_updates (rounds (chain_edges 3) 3 (get_initial_labels (chain_edges 3)))
       (rounds (chain_edges 3) (Suc 3) (get_initial_labels (chain_edges 3))) = 0"
    by blast
  moreover have "card (nodes_of (chain_edges 3)) - 1 = 3"
    by (simp add: chain_nodes)
  ultimately show ?thesis using k t by blast
qed

text \<open>
  Against claim C2 as stated: on the chain of 1000 nodes the loop stopped after 998
  rounds has not yet produced the labeling that the loop run to convergence returns
  (node 999 still has label 1, not 0), so the chain does not converge within roughly 10
  rounds, nor within a number of rounds logarithmic in its length.
\<close>

theorem chain_1000_not_converged_after_998_rounds:
  "connected_components_ints (chain_edges 999) (Some 998) \<noteq>
     connected_components_ints (chain_edges 999) None"
proof -
  have a: "connected_components_ints (chain_edges 999) (Some (int 998)) =
      Some (Inr (rounds (chain_edges 999) 998 (get_initial_labels (chain_edges 999))))"
    by (rule chain_cut) simp_all
  have b: "connected_components_ints (chain_edges 999) None =
      Some (Inr (rounds (chain_edges 999) 999 (get_initial_labels (chain_edges 999))))"
    by (rule chain_unlimited) simp
  have "(999, Some 1) \<in> set (rounds (chain_edges 999) 998 (get_initial_labels (chain_edges 999)))"
    unfolding chain_rounds_set [of 999 998, simplified]
    by (rule image_eqI [where x = 999]) simp_all
  moreover have "(999, Some 1) \<notin> set (rounds (chain_edges 999) 999 (get_initial_labels (chain_edges 999)))"
    unfolding chain_rounds_set [of 999 999, simplified] by auto
  ultimately have "rounds (chain_edges 999) 998 (get_initial_labels (chain_edges 999)) \<noteq>
      rounds (chain_edges 999) 999 (get_initial_labels (chain_edges 999))"
    by metis
  with a b show ?thesis by simp
qed

section \<open>Rejection of a malformed edge table\<close>

lemma swapped_schema_mem:
  "(n, ty) \<in> set (schema raw) \<Longrightarrow> (swap_name n, ty) \<in> set (schema (rename_swapped raw))"
  unfolding rename_swapped_def by force

lemma intify_edges_rejects:
  assumes "\<not> endpoints_ok raw"
  shows "intify_edges mk raw = Inl ValueError \<or> intify_edges mk raw = Inl RelationError"
proof (cases "''record_id_l'' \<notin> set (map fst (schema raw)) \<or> ''record_id_r'' \<notin> set (map fst (schema raw))")
  case True
  then show ?thesis unfolding intify_edges_def by simp
next
  case False
  then obtain ty where ty: "(''record_id_l'', ty) \<in> set (schema raw)" by auto
  have "set (schema raw) \<noteq> set (schema (rename_swapped raw))"
  proof
    assume eq: "set (schema raw) = set (schema (rename_swapped raw))"
    from swapped_schema_mem [OF ty] have "(''record_id_r'', ty) \<in> set (schema (rename_swapped raw))"
      by (simp add: swap_name_def)
    with eq have "(''record_id_r'', ty) \<in> set (schema raw)" by simp
    with ty have "endpoints_ok raw" unfolding endpoints_ok_def by force
    with assms show False by simp
  qed
  with False show ?thesis unfolding intify_edges_def ibis_union_def by simp
qed

text \<open>
  Claim C6. An edge table that does not have both endpoint columns, or has them with two
  different datatypes, is rejected: \<^verbatim>\<open>_intify_edges\<close> fails with \<^verbatim>\<open>ValueError\<close> (a
  column is missing) or with the library's error on the union of mismatched schemas, and
  that error is the outcome of \<^verbatim>\<open>connected_components\<close> whatever the nodes and the round
  limit: the loop is never entered and no labeling is computed.
\<close>

theorem malformed_edges_rejected:
  assumes "\<not> endpoints_ok raw"
  shows "\<exists>e. (e = ValueError \<or> e = RelationError) \<and> intify_edges mk raw = Inl e \<and>
             connected_components mk raw nodes max_iter = Some (Inl e)"
  using intify_edges_rejects [OF assms, of mk] unfolding connected_components_def by auto

theorem malformed_edges_rejected_witness:
  "\<not> endpoints_ok \<lparr>schema = [(''record_id_l'', ''string''), (''record_id_r'', ''int64'')],
                     rows = [(''a'', ''x'')]\<rparr> \<and>
   connected_components Factorizer
     \<lparr>schema = [(''record_id_l'', ''string''), (''record_id_r'', ''int64'')], rows = [(''a'', ''x'')]\<rparr>
     None None = Some (Inl RelationError)"
proof -
  let ?raw = "\<lparr>schema = [(''record_id_l'', ''string''), (''record_id_r'', ''int64'')],
                     rows = [(''a'', ''x'')]\<rparr>"
  have h: "\<not> endpoints_ok ?raw" by (simp add: endpoints_ok_def)
  have "intify_edges Factorizer ?raw \<noteq> Inl ValueError"
    by (simp add: intify_edges_def ibis_union_def rename_swapped_def swap_name_def Let_def)
  with malformed_edges_rejected [OF h, of Factorizer None None] h show ?thesis by auto
qed

section \<open>Nodes outside the edge list\<close>

lemma agg_max_set:
  "agg_max cs = (if {c. Some c \<in> set cs} = {} then None else Some (Max {c. Some c \<in> set cs}))"
proof -
  define vs where "vs = [c. Some c \<leftarrow> cs]"
  have s: "set vs = {c. Some c \<in> set cs}"
    unfolding vs_def by (induction cs) (auto split: option.splits)
  have a: "agg_max cs = (case vs of [] \<Rightarrow> None | x # xs \<Rightarrow> Some (Max (set (x # xs))))"
    unfolding vs_def agg_max_def ..
  show ?thesis
  proof (cases vs)
    case Nil
    with s a show ?thesis by simp
  next
    case (Cons x xs)
    with s have "{c. Some c \<in> set cs} = set (x # xs)" by simp
    with Cons a show ?thesis by (simp del: set_simps)
  qed
qed

lemma labels_in_use: "{c. Some c \<in> set (map snd labels)} = {c. \<exists>n. (n, Some c) \<in> set labels}"
  by force

lemma labels_in_use_finite: "finite {c. \<exists>n. (n, Some c) \<in> set labels}"
proof -
  have "{c. \<exists>n. (n, Some c) \<in> set labels} \<subseteq> the ` snd ` set labels" by force
  then show ?thesis by (rule finite_subset) simp
qed

lemma additional_labels_rows:
  "map (\<lambda>(row_number, record_id). (record_id, Some (row_number + (1 + m)))) (enumerate 0 ws) =
     map (\<lambda>i. (ws ! i, Some (m + 1 + i))) [0..<length ws]"
  by (rule nth_equalityI) (simp_all add: nth_enumerate_eq)

lemma get_additional_labels_Some:
  assumes "(n0, Some c0) \<in> set labels"
  shows "get_additional_labels labels nodes =
     Inr (map (\<lambda>i. (filter (\<lambda>w. w \<notin> fst ` set labels) nodes ! i,
                      Some (Max {c. \<exists>n. (n, Some c) \<in> set labels} + 1 + i)))
            [0..<length (filter (\<lambda>w. w \<notin> fst ` set labels) nodes)])"
proof -
  from assms(1) have ne: "{c. Some c \<in> set (map snd labels)} \<noteq> {}" unfolding labels_in_use by blast
  have "agg_max (map snd labels) = Some (Max {c. \<exists>n. (n, Some c) \<in> set labels})"
    unfolding agg_max_set using ne by (simp only: labels_in_use if_False)
  then show ?thesis
    unfolding get_additional_labels_def Let_def
    by (simp only: option.case additional_labels_rows set_map)
qed

text \<open>
  When the labeling has at least one label, the rows of \<open>nodes\<close> whose identifier has no
  label are appended to the unchanged labeling, in their order; the \<open>i\<close>-th of them
  (counting from 0) gets the label \<open>max + 1 + i\<close>, where \<open>max\<close> is the greatest label in
  use. These labels differ from every label in use and from one another.
\<close>

lemma add_labels_structure:
  assumes "(n0, Some c0) \<in> set labels"
  shows "\<exists>additional.
     add_labels_for_missing_nodes labels nodes = Inr (labels @ additional) \<and>
     map fst additional = filter (\<lambda>w. w \<notin> fst ` set labels) nodes \<and>
     map snd additional =
       map (\<lambda>i. Some (Max {c. \<exists>n. (n, Some c) \<in> set labels} + 1 + i)) [0..<length additional] \<and>
     set (map snd additional) \<inter> set (map snd labels) = {} \<and>
     distinct (map snd additional)"
proof -
  define m where "m = Max {c. \<exists>n. (n, Some c) \<in> set labels}"
  define ws where "ws = filter (\<lambda>w. w \<notin> fst ` set labels) nodes"
  define additional where "additional = map (\<lambda>i. (ws ! i, Some (m + 1 + i))) [0..<length ws]"
  have len: "length additional = length ws" unfolding additional_def by simp
  have 1: "add_labels_for_missing_nodes labels nodes = Inr (labels @ additional)"
    unfolding add_labels_for_missing_nodes_def get_additional_labels_Some [OF assms]
      additional_def m_def ws_def by simp
  have 2: "map fst additional = ws"
    unfolding additional_def by (rule nth_equalityI) simp_all
  have 3: "map snd additional = map (\<lambda>i. Some (m + 1 + i)) [0..<length additional]"
    unfolding len unfolding additional_def by simp
  have le: "c \<le> m" if "(n, Some c) \<in> set labels" for n c
    unfolding m_def using that by (intro Max_ge labels_in_use_finite) blast
  have 4: "set (map snd additional) \<inter> set (map snd labels) = {}"
  proof (rule ccontr)
    assume "set (map snd additional) \<inter> set (map snd labels) \<noteq> {}"
    then obtain d where d: "d \<in> set (map snd additional)" "d \<in> set (map snd labels)" by blast
    from d(1) obtain i where "d = Some (m + 1 + i)" unfolding 3 by auto
    moreover from d(2) obtain n where "(n, d) \<in> set labels" by auto
    ultimately show False using le by fastforce
  qed
  have 5: "distinct (map snd additional)"
    unfolding 3 by (simp add: distinct_map inj_on_def)
  from 1 2 3 4 5 show ?thesis unfolding m_def ws_def by blast
qed

lemma add_labels_for_missing_nodes_example:
  "add_labels_for_missing_nodes [(''a'', Some 0), (''b'', Some 2)] [''w'', ''a'', ''v''] =
     Inr [(''a'', Some 0), (''b'', Some 2), (''w'', Some 3), (''v'', Some 4)]"
  by code_simp

text \<open>
  A labeling without a label has no greatest label: \<^verbatim>\<open>labels.component.max()\<close> is NULL,
  and \<^verbatim>\<open>1 + max_existing_label\<close> raises before any node is looked at.
\<close>

lemma no_label_no_maximum:
  assumes "\<forall>(n, c) \<in> set labels. c = None"
  shows "get_additional_labels labels nodes = Inl TypeError"
proof -
  from assms have "{c. Some c \<in> set (map snd labels)} = {}" by force
  then have "agg_max (map snd labels) = None" unfolding agg_max_set by simp
  then show ?thesis unfolding get_additional_labels_def by simp
qed

section \<open>From codes back to identifiers\<close>

lemma all_node_ids_set: "set (all_node_ids raw) = nodes_of (rows raw)"
  unfolding all_node_ids_def rename_swapped_def nodes_of_def
  by (force simp: image_Un image_image split_def)

lemma factorizer_ok_decode:
  "factorizer_ok f (all_node_ids raw) \<Longrightarrow> x \<in> nodes_of (rows raw) \<Longrightarrow> decode f (encode f x) = Some x"
  unfolding factorizer_ok_def list_all_iff all_node_ids_set by blast

lemma swap_name_swap_name: "swap_name (swap_name n) = n"
  unfolding swap_name_def by simp

lemma schema_ok_union:
  assumes "schema_ok raw"
  shows "set (schema raw) = set (schema (rename_swapped raw))"
proof -
  from assms obtain ty where ty: "(''record_id_l'', ty) \<in> set (schema raw)"
      "(''record_id_r'', ty) \<in> set (schema raw)" and d: "distinct (map fst (schema raw))"
    unfolding schema_ok_def endpoints_ok_def by blast
  have sw: "(swap_name n, t) \<in> set (schema raw)" if "(n, t) \<in> set (schema raw)" for n t
  proof (cases "n = ''record_id_l'' \<or> n = ''record_id_r''")
    case True
    with that ty d have "t = ty" by (metis eq_key_imp_eq_value)
    with True ty show ?thesis unfolding swap_name_def by auto
  next
    case False
    with that show ?thesis unfolding swap_name_def by simp
  qed
  have s: "set (schema (rename_swapped raw)) = (\<lambda>(n, t). (swap_name n, t)) ` set (schema raw)"
    unfolding rename_swapped_def by simp
  show ?thesis
  proof (rule set_eqI, rule iffI)
    fix p assume p: "p \<in> set (schema raw)"
    obtain n t where nt: "p = (n, t)" by (cases p)
    with p sw have "(swap_name n, t) \<in> set (schema raw)" by blast
    then have "(\<lambda>(n, t). (swap_name n, t)) (swap_name n, t) \<in> set (schema (rename_swapped raw))"
      unfolding s by (rule imageI)
    then show "p \<in> set (schema (rename_swapped raw))"
      unfolding nt by (simp add: swap_name_swap_name)
  next
    fix p assume "p \<in> set (schema (rename_swapped raw))"
    then obtain n t where "(n, t) \<in> set (schema raw)" "p = (swap_name n, t)"
      unfolding s by auto
    with sw show "p \<in> set (schema raw)" by simp
  qed
qed

lemma intify_edges_ok:
  assumes "schema_ok raw"
  shows "intify_edges mk raw =
     Inr (map (\<lambda>(l, r). (encode (mk (all_node_ids raw)) l, encode (mk (all_node_ids raw)) r)) (rows raw),
          \<lambda>int_labels. [(x, component). (record_id, component) \<leftarrow> int_labels,
                 Some x \<leftarrow> [decode (mk (all_node_ids raw)) record_id]])"
proof -
  from assms have "''record_id_l'' \<in> set (map fst (schema raw))" "''record_id_r'' \<in> set (map fst (schema raw))"
    unfolding schema_ok_def endpoints_ok_def by force+
  then show ?thesis
    unfolding intify_edges_def ibis_union_def all_node_ids_def Let_def
    using schema_ok_union [OF assms] by simp
qed

lemma set_decode_join:
  "(x, c) \<in> set [(x, component). (record_id, component) \<leftarrow> L, Some x \<leftarrow> [g record_id]]
     \<longleftrightarrow> (\<exists>rid. (rid, c) \<in> set L \<and> g rid = Some x)"
  by (induction L) (auto split: option.splits)

lemma nodes_of_map: "nodes_of (map (\<lambda>(l, r). (f l, f r)) E) = f ` nodes_of E"
  unfolding nodes_of_def by (force simp: image_Un image_image split_def)

lemma connected_map:
  "connected E x y \<Longrightarrow> connected (map (\<lambda>(l, r). (f l, f r)) E) (f x) (f y)"
  unfolding connected_def
proof (induction rule: rtrancl_induct)
  case base
  show ?case by simp
next
  case (step y z)
  from step.hyps(2) have "(f y, f z) \<in> set (map (\<lambda>(l, r). (f l, f r)) E) \<union> (set (map (\<lambda>(l, r). (f l, f r)) E))\<inverse>"
    by force
  with step.IH show ?case by (rule rtrancl_into_rtrancl)
qed

lemma connected_unmap:
  assumes inv: "\<And>x. x \<in> nodes_of E \<Longrightarrow> g (f x) = x"
    and c: "connected (map (\<lambda>(l, r). (f l, f r)) E) a b"
  shows "connected E (g a) (g b)"
  using c unfolding connected_def
proof (induction rule: rtrancl_induct)
  case base
  show ?case by simp
next
  case (step y z)
  from step.hyps(2) obtain l r where lr: "(l, r) \<in> set E" "(y = f l \<and> z = f r) \<or> (y = f r \<and> z = f l)"
    by auto
  then have "l \<in> nodes_of E" "r \<in> nodes_of E" unfolding nodes_of_def by force+
  with inv have "g (f l) = l" "g (f r) = r" by blast+
  with lr have "(g y, g z) \<in> set E \<union> (set E)\<inverse>" by auto
  with step.IH show ?case by (rule rtrancl_into_rtrancl)
qed

lemma connected_map_iff:
  assumes inv: "\<And>x. x \<in> nodes_of E \<Longrightarrow> g (f x) = x"
    and x: "x \<in> nodes_of E" and y: "y \<in> nodes_of E"
  shows "connected (map (\<lambda>(l, r). (f l, f r)) E) (f x) (f y) \<longleftrightarrow> connected E x y"
proof
  assume "connected (map (\<lambda>(l, r). (f l, f r)) E) (f x) (f y)"
  from connected_unmap [OF inv this] have "connected E (g (f x)) (g (f y))" by simp
  with inv x y show "connected E x y" by simp
next
  assume "connected E x y"
  then show "connected (map (\<lambda>(l, r). (f l, f r)) E) (f x) (f y)" by (rule connected_map)
qed

lemma cc_ints_partition:
  "\<exists>L. connected_components_ints E None = Some (Inr L) \<and> fst ` set L = nodes_of E \<and>
     (\<forall>n c m d. (n, c) \<in> set L \<longrightarrow> (m, d) \<in> set L \<longrightarrow> (c = d) = connected E n m) \<and>
     (\<forall>n c. (n, c) \<in> set L \<longrightarrow> (\<exists>k. c = Some k))"
proof -
  obtain j where j: "connected_components_ints E None = Some (Inr (rounds E j (get_initial_labels E)))"
    and fx: "n_updates (rounds E j (get_initial_labels E)) (rounds E (Suc j) (get_initial_labels E)) = 0"
    by (rule cc_ints_None)
  let ?L = "rounds E j (get_initial_labels E)"
  have inv: "labels_inv E ?L" by (rule reachable_inv)
  from fx have fx': "n_updates ?L (updated_labels ?L E) = 0" by (simp only: rounds_Suc)
  have "(c = d) = connected E n m" if "(n, c) \<in> set ?L" "(m, d) \<in> set ?L" for n c m d
    by (rule fixpoint_same_label_iff [OF inv fx' that])
  moreover have "\<exists>k. c = Some k" if "(n, c) \<in> set ?L" for n c
    using labels_inv_row [OF inv that] by blast
  ultimately show ?thesis using j labels_inv_keys [OF inv] by blast
qed

text \<open>
  What a run to convergence without \<open>nodes\<close> returns: one or more rows for each node of
  the edge list and for nothing else, with labels that are not NULL and that agree
  exactly on connected nodes. With \<open>nodes\<close>, the labels for the missing nodes are added
  to that labeling.
\<close>

lemma cc_result:
  assumes ok: "schema_ok raw" and fz: "factorizer_ok (mk (all_node_ids raw)) (all_node_ids raw)"
  shows "\<exists>result. connected_components mk raw None None = Some (Inr result) \<and>
     fst ` set result = nodes_of (rows raw) \<and>
     (\<forall>x c y d. (x, c) \<in> set result \<longrightarrow> (y, d) \<in> set result \<longrightarrow> (c = d) = connected (rows raw) x y) \<and>
     (\<forall>x c. (x, c) \<in> set result \<longrightarrow> (\<exists>k. c = Some k)) \<and>
     (\<forall>ns. connected_components mk raw (Some ns) None = Some (add_labels_for_missing_nodes result ns))"
proof -
  define f where "f = mk (all_node_ids raw)"
  define E' where "E' = map (\<lambda>(l, r). (encode f l, encode f r)) (rows raw)"
  have dec: "decode f (encode f x) = Some x" if "x \<in> nodes_of (rows raw)" for x
    using factorizer_ok_decode [OF fz that] unfolding f_def .
  have dec': "(the \<circ> decode f) (encode f x) = x" if "x \<in> nodes_of (rows raw)" for x
    using dec [OF that] by simp
  from cc_ints_partition [of E'] obtain L where L: "connected_components_ints E' None = Some (Inr L)"
    and keys: "fst ` set L = nodes_of E'"
    and part: "\<forall>n c m d. (n, c) \<in> set L \<longrightarrow> (m, d) \<in> set L \<longrightarrow> (c = d) = connected E' n m"
    and nn: "\<forall>n c. (n, c) \<in> set L \<longrightarrow> (\<exists>k. c = Some k)"
    by blast
  define result where "result = [(x, component). (record_id, component) \<leftarrow> L,
                                  Some x \<leftarrow> [decode f record_id]]"
  have mem: "(x, c) \<in> set result \<longleftrightarrow> (\<exists>rid. (rid, c) \<in> set L \<and> decode f rid = Some x)" for x c
    unfolding result_def by (rule set_decode_join)
  have nodes': "nodes_of E' = encode f ` nodes_of (rows raw)"
    unfolding E'_def by (rule nodes_of_map)
  have row: "\<exists>x' \<in> nodes_of (rows raw). x = x' \<and> (encode f x', c) \<in> set L"
    if "(x, c) \<in> set result" for x c
  proof -
    from that obtain rid where rid: "(rid, c) \<in> set L" "decode f rid = Some x"
      unfolding mem by blast
    then have "rid \<in> nodes_of E'" using keys by force
    then obtain x' where x': "x' \<in> nodes_of (rows raw)" "rid = encode f x'"
      unfolding nodes' by blast
    with rid dec show ?thesis by auto
  qed
  have 1: "connected_components mk raw None None = Some (Inr result)"
    unfolding connected_components_def intify_edges_ok [OF ok]
    using L unfolding E'_def f_def result_def by simp
  have 5: "connected_components mk raw (Some ns) None = Some (add_labels_for_missing_nodes result ns)" for ns
    unfolding connected_components_def intify_edges_ok [OF ok]
    using L unfolding E'_def f_def result_def by simp
  have 2: "fst ` set result = nodes_of (rows raw)"
  proof (rule set_eqI, rule iffI)
    fix x assume "x \<in> fst ` set result"
    then obtain c where "(x, c) \<in> set result" by force
    from row [OF this] show "x \<in> nodes_of (rows raw)" by blast
  next
    fix x assume x: "x \<in> nodes_of (rows raw)"
    then have "encode f x \<in> fst ` set L" unfolding keys nodes' by blast
    then obtain c where "(encode f x, c) \<in> set L" by force
    with dec [OF x] have "(x, c) \<in> set result" unfolding mem by blast
    then show "x \<in> fst ` set result" by force
  qed
  have 3: "(c = d) = connected (rows raw) x y" if "(x, c) \<in> set result" "(y, d) \<in> set result" for x c y d
  proof -
    from row [OF that(1)] have x: "x \<in> nodes_of (rows raw)" "(encode f x, c) \<in> set L" by auto
    from row [OF that(2)] have y: "y \<in> nodes_of (rows raw)" "(encode f y, d) \<in> set L" by auto
    from part x(2) y(2) have "(c = d) = connected E' (encode f x) (encode f y)" by blast
    also have "\<dots> = connected (rows raw) x y"
      unfolding E'_def
      by (rule connected_map_iff [where g = "the \<circ> decode f" and f = "encode f", OF dec' x(1) y(1)])
    finally show ?thesis .
  qed
  have 4: "\<exists>k. c = Some k" if "(x, c) \<in> set result" for x c
    using row [OF that] nn by blast
  show ?thesis
  proof (intro exI [of _ result] conjI allI impI)
    show "connected_components mk raw None None = Some (Inr result)" by (rule 1)
    show "fst ` set result = nodes_of (rows raw)" by (rule 2)
    show "(c = d) = connected (rows raw) x y" if "(x, c) \<in> set result" "(y, d) \<in> set result" for x c y d
      using that by (rule 3)
    show "\<exists>k. c = Some k" if "(x, c) \<in> set result" for x c
      using that by (rule 4)
    show "connected_components mk raw (Some ns) None = Some (add_labels_for_missing_nodes result ns)" for ns
      by (rule 5)
  qed
qed

section \<open>A universe of nodes over an edge table without rows\<close>

lemma cc_ints_empty: "connected_components_ints [] max_iter = Some (Inr [])"
  unfolding connected_components_ints_def get_initial_labels_def
  by (subst cc_loop.simps)
     (simp add: round_body_def updated_labels_def n_updates_def)

text \<open>
  An edge table with a usable schema and no row (no pair of records matched) is accepted
  and its labeling is empty. With a universe of nodes, whatever it holds and whatever the
  round limit, the call then fails in \<^verbatim>\<open>_get_additional_labels\<close>: no node of the
  universe gets a label.
\<close>

lemma empty_edges_universe_fails:
  assumes "schema_ok raw" and "rows raw = []"
  shows "connected_components mk raw (Some ns) max_iter = Some (Inl TypeError)"
proof -
  have "add_labels_for_missing_nodes ([] :: ('a \<times> nat option) list) ns = Inl TypeError"
    unfolding add_labels_for_missing_nodes_def by (simp add: no_label_no_maximum)
  then show ?thesis
    unfolding connected_components_def intify_edges_ok [OF assms(1)] assms(2)
    by (simp add: cc_ints_empty)
qed

text \<open>
  Claim C7. For every universe passed as \<open>nodes\<close>, every node of the universe that has no
  label is to receive the label \<open>max + 1 + rank\<close>, different from every label in use and
  from the label of every other such node, the rows already there staying as they are;
  the docstring of \<^verbatim>\<open>connected_components\<close> promises that "the output will include labels
  for all nodes in this table, even if they are not in the edges". The code does so when
  the labeling has a label (\<open>add_labels_structure\<close>). It does not on an edge table without
  rows: the table with both endpoint columns and no row is accepted and, without a
  universe, gives the empty labeling; with the universe \<^verbatim>\<open>['w']\<close> the maximum of no label
  is NULL, \<^verbatim>\<open>1 + max_existing_label\<close> raises, and the call ends with that error instead of
  a row for \<open>w\<close>.
\<close>

theorem universe_over_empty_edges_fails:
  "connected_components Factorizer
     \<lparr>schema = [(''record_id_l'', ''string''), (''record_id_r'', ''string'')],
      rows = ([] :: (string \<times> string) list)\<rparr>
     None None = Some (Inr []) \<and>
   get_additional_labels ([] :: (string \<times> nat option) list) [''w''] = Inl TypeError \<and>
   connected_components Factorizer
     \<lparr>schema = [(''record_id_l'', ''string''), (''record_id_r'', ''string'')], rows = []\<rparr>
     (Some [''w'']) None = Some (Inl TypeError)"
  by code_simp

section \<open>The partition into components\<close>

text \<open>
  Claim C1. Run without \<open>nodes\<close> and without a round limit on a table with a usable
  schema, \<^verbatim>\<open>connected_components\<close> returns a labeling of exactly the nodes of the edge
  list in which two rows carry the same label if and only if their nodes are connected
  by a path of edges, read in either direction. This holds for every factorizer that
  decodes the codes it gave.
\<close>

theorem same_label_iff_connected:
  assumes "schema_ok raw" and "factorizer_ok (mk (all_node_ids raw)) (all_node_ids raw)"
  shows "\<exists>result. connected_components mk raw None None = Some (Inr result) \<and>
     fst ` set result = nodes_of (rows raw) \<and>
     (\<forall>(x, c) \<in> set result. \<forall>(y, d) \<in> set result. (c = d) = connected (rows raw) x y)"
proof -
  from cc_result [where raw = raw and mk = mk, OF assms]
  obtain result where r: "connected_components mk raw None None = Some (Inr result)"
      "fst ` set result = nodes_of (rows raw)"
      "\<forall>x c y d. (x, c) \<in> set result \<longrightarrow> (y, d) \<in> set result \<longrightarrow> (c = d) = connected (rows raw) x y"
    by blast
  have "\<forall>(x, c) \<in> set result. \<forall>(y, d) \<in> set result. (c = d) = connected (rows raw) x y"
  proof (rule ballI)
    fix p assume p: "p \<in> set result"
    obtain x c where pe: "p = (x, c)" by (cases p)
    show "case p of (x, c) \<Rightarrow> \<forall>(y, d) \<in> set result. (c = d) = connected (rows raw) x y"
      unfolding pe prod.case
    proof (rule ballI)
      fix q assume q: "q \<in> set result"
      obtain y d where qe: "q = (y, d)" by (cases q)
      show "case q of (y, d) \<Rightarrow> (c = d) = connected (rows raw) x y"
        unfolding qe prod.case
        by (rule r(3) [rule_format, OF p [unfolded pe] q [unfolded qe]])
    qed
  qed
  with r(1,2) show ?thesis by (intro exI [of _ result] conjI)
qed

theorem same_label_iff_connected_witness:
  "schema_ok \<lparr>schema = [(''record_id_l'', ''string''), (''record_id_r'', ''string'')],
              rows = [(''a'', ''x''), (''b'', ''x''), (''g'', ''h'')]\<rparr> \<and>
   factorizer_ok
     (Factorizer (all_node_ids \<lparr>schema = [(''record_id_l'', ''string''), (''record_id_r'', ''string'')],
                                rows = [(''a'', ''x''), (''b'', ''x''), (''g'', ''h'')]\<rparr>))
     (all_node_ids \<lparr>schema = [(''record_id_l'', ''string''), (''record_id_r'', ''string'')],
                    rows = [(''a'', ''x''), (''b'', ''x''), (''g'', ''h'')]\<rparr>) \<and>
   connected_components Factorizer
     \<lparr>schema = [(''record_id_l'', ''string''), (''record_id_r'', ''string'')],
      rows = [(''a'', ''x''), (''b'', ''x''), (''g'', ''h'')]\<rparr> None None =
     Some (Inr [(''a'', Some 0), (''b'', Some 0), (''g'', Some 2), (''x'', Some 0), (''h'', Some 2)]) \<and>
   connected [(''a'', ''x''), (''b'', ''x''), (''g'', ''h'')] ''a'' ''b'' \<and>
   \<not> connected [(''a'', ''x''), (''b'', ''x''), (''g'', ''h'')] ''a'' ''g''"
proof -
  let ?raw = "\<lparr>schema = [(''record_id_l'', ''string''), (''record_id_r'', ''string'')],
              rows = [(''a'', ''x''), (''b'', ''x''), (''g'', ''h'')]\<rparr>"
  let ?res = "[(''a'', Some 0), (''b'', Some 0), (''g'', Some 2), (''x'', Some 0), (''h'', Some (2::nat))]"
  have h1: "schema_ok ?raw" by (simp add: schema_ok_def endpoints_ok_def)
  have h2: "factorizer_ok (Factorizer (all_node_ids ?raw)) (all_node_ids ?raw)" by code_simp
  have ev: "connected_components Factorizer ?raw None None = Some (Inr ?res)" by code_simp
  from same_label_iff_connected [of ?raw Factorizer, OF h1 h2] ev
  have "\<forall>(x, c) \<in> set ?res. \<forall>(y, d) \<in> set ?res. (c = d) = connected (rows ?raw) x y"
    by simp
  then have "connected (rows ?raw) ''a'' ''b''" "\<not> connected (rows ?raw) ''a'' ''g''"
    by simp_all
  with h1 h2 ev show ?thesis by simp
qed

section \<open>The factorizer of the specification\<close>

lemma nth_first_position: "x \<in> set xs \<Longrightarrow> xs ! length (takeWhile (\<lambda>y. y \<noteq> x) xs) = x"
  by (induction xs) auto

lemma first_position_less: "x \<in> set xs \<Longrightarrow> length (takeWhile (\<lambda>y. y \<noteq> x) xs) < length xs"
  by (induction xs) auto

lemma Factorizer_ok: "factorizer_ok (Factorizer ids) ids"
proof -
  have "remdups ids ! length (takeWhile (\<lambda>y. y \<noteq> x) (remdups ids)) = x"
    and "length (takeWhile (\<lambda>y. y \<noteq> x) (remdups ids)) < length (remdups ids)"
    if "x \<in> set ids" for x
    using that by (simp_all add: nth_first_position first_position_less)
  then show ?thesis
    unfolding factorizer_ok_def Factorizer_def Let_def list_all_iff by simp
qed

section \<open>Independence of the partition from the order of rows and from the codes\<close>

lemma same_component_char:
  assumes keys: "fst ` set result = nodes_of E"
    and part: "\<forall>x c y d. (x, c) \<in> set result \<longrightarrow> (y, d) \<in> set result \<longrightarrow> (c = d) = connected E x y"
    and disj: "set (map snd additional) \<inter> set (map snd result) = {}"
    and dist: "distinct (map snd additional)"
  shows "same_component (result @ additional) = component_relation E (fst ` set additional)"
proof (rule set_eqI)
  fix p :: "'a \<times> 'a"
  obtain x y where p: "p = (x, y)" by (cases p)
  have inj: "x = y" if "(x, c) \<in> set additional" "(y, c) \<in> set additional" for x y c
  proof -
    from dist have "inj_on snd (set additional)" by (simp add: distinct_map)
    from inj_onD [OF this, of "(x, c)" "(y, c)"] that show ?thesis by simp
  qed
  have no: False if "(x, c) \<in> set result" "(y, c) \<in> set additional" for x y c
  proof -
    from that have "c \<in> set (map snd additional) \<inter> set (map snd result)" by force
    with disj show False by simp
  qed
  show "p \<in> same_component (result @ additional) \<longleftrightarrow> p \<in> component_relation E (fst ` set additional)"
  proof
    assume "p \<in> same_component (result @ additional)"
    then obtain c where c: "(x, c) \<in> set result \<or> (x, c) \<in> set additional"
        "(y, c) \<in> set result \<or> (y, c) \<in> set additional"
      unfolding same_component_def p by auto
    consider (rr) "(x, c) \<in> set result" "(y, c) \<in> set result"
      | (aa) "(x, c) \<in> set additional" "(y, c) \<in> set additional"
      using c no by blast
    then show "p \<in> component_relation E (fst ` set additional)"
    proof cases
      case rr
      then have "x \<in> nodes_of E" "y \<in> nodes_of E" using keys by force+
      moreover from part rr have "connected E x y" by blast
      ultimately show ?thesis unfolding component_relation_def p by simp
    next
      case aa
      then have "x = y" by (rule inj)
      moreover from aa have "x \<in> fst ` set additional" by force
      ultimately show ?thesis unfolding component_relation_def p by simp
    qed
  next
    assume "p \<in> component_relation E (fst ` set additional)"
    then consider (con) "x \<in> nodes_of E" "y \<in> nodes_of E" "connected E x y"
      | (single) "x = y" "x \<in> fst ` set additional"
      unfolding component_relation_def p by auto
    then show "p \<in> same_component (result @ additional)"
    proof cases
      case con
      from con(1,2) keys obtain c d where cd: "(x, c) \<in> set result" "(y, d) \<in> set result" by force
      with part con(3) have "c = d" by blast
      with cd show ?thesis unfolding same_component_def p by auto
    next
      case single
      then obtain c where "(x, c) \<in> set additional" by force
      with single show ?thesis unfolding same_component_def p by auto
    qed
  qed
qed

lemma partition_closed_form:
  assumes ok: "schema_ok raw" and fz: "factorizer_ok (mk (all_node_ids raw)) (all_node_ids raw)"
  shows "partition_of (connected_components mk raw nodes None) =
     Some (case nodes of
             None \<Rightarrow> Inr (component_relation (rows raw) {})
           | Some ns \<Rightarrow>
               if set (rows raw) = {} then Inl TypeError
               else Inr (component_relation (rows raw) (set ns - nodes_of (rows raw))))"
proof -
  from cc_result [where raw = raw and mk = mk, OF ok fz]
  obtain result where r: "connected_components mk raw None None = Some (Inr result)"
    and keys: "fst ` set result = nodes_of (rows raw)"
    and part: "\<forall>x c y d. (x, c) \<in> set result \<longrightarrow> (y, d) \<in> set result \<longrightarrow> (c = d) = connected (rows raw) x y"
    and nn: "\<forall>x c. (x, c) \<in> set result \<longrightarrow> (\<exists>k. c = Some k)"
    and add: "\<forall>ns. connected_components mk raw (Some ns) None = Some (add_labels_for_missing_nodes result ns)"
    by blast
  show ?thesis
  proof (cases nodes)
    case None
    have "same_component (result @ []) = component_relation (rows raw) (fst ` set ([] :: ('a \<times> nat option) list))"
      by (rule same_component_char [where additional = "[]" and result = result and E = "rows raw", OF keys part])
        simp_all
    with None r show ?thesis unfolding partition_of_def by simp
  next
    case (Some ns)
    show ?thesis
    proof (cases "set (rows raw) = {}")
      case True
      then have "nodes_of (rows raw) = {}" unfolding nodes_of_def by simp
      with keys have "result = []" by simp
      then have "add_labels_for_missing_nodes result ns = Inl TypeError"
        unfolding add_labels_for_missing_nodes_def get_additional_labels_def agg_max_def by simp
      with Some True add show ?thesis unfolding partition_of_def by simp
    next
      case False
      then have "nodes_of (rows raw) \<noteq> {}" unfolding nodes_of_def by simp
      with keys obtain n0 c0 where "(n0, c0) \<in> set result" by fastforce
      with nn obtain k where k: "(n0, Some k) \<in> set result" by blast
      from add_labels_structure [OF k, of ns] obtain additional where
        a: "add_labels_for_missing_nodes result ns = Inr (result @ additional)"
          "map fst additional = filter (\<lambda>w. w \<notin> fst ` set result) ns"
          "set (map snd additional) \<inter> set (map snd result) = {}"
          "distinct (map snd additional)"
        by blast
      from a(2) have "set (map fst additional) = set (filter (\<lambda>w. w \<notin> fst ` set result) ns)" by simp
      then have f: "fst ` set additional = set ns - nodes_of (rows raw)"
        unfolding keys by auto
      have "same_component (result @ additional) = component_relation (rows raw) (fst ` set additional)"
        by (rule same_component_char [where additional = additional and result = result and E = "rows raw",
              OF keys part a(3) a(4)])
      with Some False add a(1) f show ?thesis unfolding partition_of_def by simp
    qed
  qed
qed

lemma component_relation_cong:
  "set E1 = set E2 \<Longrightarrow> component_relation E1 X = component_relation E2 X"
  unfolding component_relation_def nodes_of_def connected_def by simp

text \<open>
  Claim C8. Two runs to convergence on the same edge set and the same universe give the
  same partition of the nodes, or fail alike, whatever the order in which the rows of
  the two tables arrive and whatever codes the factorizer of each run hands out. The
  numeric labels may differ between such runs, only the grouping is fixed.
\<close>

theorem partition_is_deterministic:
  assumes "schema_ok raw1" and "schema_ok raw2"
    and "factorizer_ok (mk1 (all_node_ids raw1)) (all_node_ids raw1)"
    and "factorizer_ok (mk2 (all_node_ids raw2)) (all_node_ids raw2)"
    and "set (rows raw1) = set (rows raw2)"
    and "map_option set nodes1 = map_option set nodes2"
  shows "partition_of (connected_components mk1 raw1 nodes1 None) =
         partition_of (connected_components mk2 raw2 nodes2 None)"
proof -
  have n: "nodes_of (rows raw1) = nodes_of (rows raw2)"
    unfolding nodes_of_def assms(5) ..
  note c = component_relation_cong [OF assms(5)]
  show ?thesis
    unfolding partition_closed_form [where raw = raw1 and mk = mk1, OF assms(1,3)]
      partition_closed_form [where raw = raw2 and mk = mk2, OF assms(2,4)]
    using assms(5,6) n c by (cases nodes1; cases nodes2) simp_all
qed

theorem partition_is_deterministic_witness:
  "schema_ok \<lparr>schema = [(''record_id_l'', ''string''), (''record_id_r'', ''string'')],
              rows = [(''a'', ''x''), (''b'', ''x''), (''g'', ''h'')]\<rparr> \<and>
   schema_ok \<lparr>schema = [(''record_id_r'', ''string''), (''record_id_l'', ''string'')],
              rows = [(''g'', ''h''), (''b'', ''x''), (''a'', ''x''), (''b'', ''x'')]\<rparr> \<and>
   set [(''a'', ''x''), (''b'', ''x''), (''g'', ''h'')] =
     set [(''g'', ''h''), (''b'', ''x''), (''a'', ''x''), (''b'', ''x'')] \<and>
   set [''w'', ''a''] = set [''a'', ''w''] \<and>
   partition_of (connected_components Factorizer
      \<lparr>schema = [(''record_id_l'', ''string''), (''record_id_r'', ''string'')],
       rows = [(''a'', ''x''), (''b'', ''x''), (''g'', ''h'')]\<rparr> (Some [''w'', ''a'']) None) =
   partition_of (connected_components Factorizer
      \<lparr>schema = [(''record_id_r'', ''string''), (''record_id_l'', ''string'')],
       rows = [(''g'', ''h''), (''b'', ''x''), (''a'', ''x''), (''b'', ''x'')]\<rparr> (Some [''a'', ''w'']) None) \<and>
   connected_components Factorizer
      \<lparr>schema = [(''record_id_l'', ''string''), (''record_id_r'', ''string'')],
       rows = [(''a'', ''x''), (''b'', ''x''), (''g'', ''h'')]\<rparr> (Some [''w'', ''a'']) None \<noteq>
   connected_components Factorizer
      \<lparr>schema = [(''record_id_r'', ''string''), (''record_id_l'', ''string'')],
       rows = [(''g'', ''h''), (''b'', ''x''), (''a'', ''x''), (''b'', ''x'')]\<rparr> (Some [''a'', ''w'']) None"
proof -
  let ?raw1 = "\<lparr>schema = [(''record_id_l'', ''string''), (''record_id_r'', ''string'')],
              rows = [(''a'', ''x''), (''b'', ''x''), (''g'', ''h'')]\<rparr>"
  let ?raw2 = "\<lparr>schema = [(''record_id_r'', ''string''), (''record_id_l'', ''string'')],
              rows = [(''g'', ''h''), (''b'', ''x''), (''a'', ''x''), (''b'', ''x'')]\<rparr>"
  have h1: "schema_ok ?raw1" by (simp add: schema_ok_def endpoints_ok_def)
  have h2: "schema_ok ?raw2" by (simp add: schema_ok_def endpoints_ok_def)
  have h3: "factorizer_ok (Factorizer (all_node_ids ?raw1)) (all_node_ids ?raw1)" by (rule Factorizer_ok)
  have h4: "factorizer_ok (Factorizer (all_node_ids ?raw2)) (all_node_ids ?raw2)" by (rule Factorizer_ok)
  have h5: "set [(''a'', ''x''), (''b'', ''x''), (''g'', ''h'')] =
     set [(''g'', ''h''), (''b'', ''x''), (''a'', ''x''), (''b'', ''x'')]" by auto
  have h6: "set [''w'', ''a''] = set [''a'', ''w'']" by auto
  have p: "partition_of (connected_components Factorizer ?raw1 (Some [''w'', ''a'']) None) =
           partition_of (connected_components Factorizer ?raw2 (Some [''a'', ''w'']) None)"
    by (rule partition_is_deterministic [where ?mk1.0 = Factorizer and ?mk2.0 = Factorizer, OF h1 h2 h3 h4])
      (use h5 h6 in simp_all)
  have d: "connected_components Factorizer ?raw1 (Some [''w'', ''a'']) None \<noteq>
           connected_components Factorizer ?raw2 (Some [''a'', ''w'']) None"
    by code_simp
  from h1 h2 h5 h6 p d show ?thesis by blast
qed

end
